theory Spec2Isabelle
  imports Complex_Main "HOL-Library.Sublist"
begin

section \<open>JavaScript numbers\<close>

text \<open>
  The component computes with JavaScript numbers, that is IEEE 754 doubles. Integer
  arithmetic on values below \<open>2^53\<close> (ids, chunk indices, byte offsets) is exact and is
  modelled on \<open>nat\<close>. The two divisions of the source, \<open>file.size / chunkSize\<close> and
  \<open>currentChunk / totalChunks\<close>, and the product \<open>(currentChunk / totalChunks) * 100\<close>
  are rounded to the nearest double, ties to even. \<open>fl\<close> is that rounding on the exact
  rational result, for the normal range (no overflow, no subnormals), which is where
  every value of this program lies.
\<close>

function nlog2 :: "int \<Rightarrow> int" where
  "nlog2 n = (if n < 2 then 0 else 1 + nlog2 (n div 2))"
  by auto
termination
  by (relation "measure nat") auto

declare nlog2.simps [simp del]

definition ilog2 :: "rat \<Rightarrow> int" where
  \<comment> \<open>the binary exponent of a positive rational: \<open>2 powi ilog2 q \<le> q < 2 powi (ilog2 q + 1)\<close>\<close>
  "ilog2 q = (case quotient_of q of (a, b) \<Rightarrow>
     let k = nlog2 a - nlog2 b
     in if 2 powi k \<le> q then k else k - 1)"

definition roundEven :: "rat \<Rightarrow> int" where
  "roundEven x = (let n = \<lfloor>x\<rfloor>; r = x - of_int n
     in if r < 1/2 then n else if 1/2 < r then n + 1 else if even n then n else n + 1)"

definition fl :: "rat \<Rightarrow> rat" where
  \<comment> \<open>the nearest double: a 53 bit significand, ties to even\<close>
  "fl q = (if q \<le> 0 then 0 else
     let e = ilog2 q - 52 in of_int (roundEven (q / 2 powi e)) * 2 powi e)"

definition Math_round :: "rat \<Rightarrow> int" where
  \<comment> \<open>\<open>Math.round\<close>: the nearest integer, a tie goes up\<close>
  "Math_round x = \<lfloor>x + 1/2\<rfloor>"

definition Math_ceil :: "rat \<Rightarrow> int" where
  "Math_ceil x = \<lceil>x\<rceil>"

definition percentOf :: "nat \<Rightarrow> nat \<Rightarrow> int" where
  \<comment> \<open>\<open>Math.round((currentChunk / totalChunks) * 100)\<close>\<close>
  "percentOf currentChunk totalChunks =
     Math_round (fl (fl (of_nat currentChunk / of_nat totalChunks) * 100))"

definition chunkSize :: nat where
  \<comment> \<open>\<open>const chunkSize = 1024 * 256\<close>\<close>
  "chunkSize = 1024 * 256"

definition totalChunksOf :: "nat \<Rightarrow> nat" where
  \<comment> \<open>\<open>Math.ceil(file.size / chunkSize)\<close>\<close>
  "totalChunksOf sz = nat (Math_ceil (fl (of_nat sz / of_nat chunkSize)))"

section \<open>Data model\<close>

text \<open>
  A \<open>File\<close> is its name and its bytes; \<open>file.size\<close> is the length of the byte list and
  \<open>file.slice(start, end)\<close> followed by \<open>arrayBuffer()\<close> reads the bytes of that range.
  An object URL is identified by the number of the \<open>URL.createObjectURL\<close> call that
  made it.
\<close>

type_synonym byte = nat
type_synonym objurl = nat

datatype kind = Image | Video

record File =
  name :: string
  bytes :: "byte list"

record PreviewFile =
  pid :: nat
  fileName :: string
  psize :: nat
  url :: "objurl option"
  objectUrl :: "objurl option"
  loading :: bool
  progress :: int
  totalChunks :: "nat option"

record FileChunk =
  fileId :: nat
  chunkIndex :: nat
  chunkTotal :: nat
  data :: "byte list"

text \<open>
  The database \<open>FileUploadDB\<close> holds at most the object store \<open>chunks\<close>, with key path
  \<open>[fileId, chunkIndex]\<close>. An object store has named indexes and rows; an index
  called \<open>fileId\<close> is taken to index the property of that name.
\<close>

record ObjectStore =
  indexNames :: "string list"
  rows :: "FileChunk list"

datatype DOMException =
  NotSupportedError | VersionError | NotFoundError | TransactionError | UnknownError

text \<open>
  The closure of \<open>processNextChunk\<close> for one file: the captured \<open>file\<close> and
  \<open>totalChunks\<close>, the variable \<open>currentChunk\<close>, and where the asynchronous function
  stands: waiting for the timer, for \<open>blob.arrayBuffer()\<close> of the slice
  \<open>[start, end)\<close>, for \<open>saveChunk\<close>, returned (normally, or through \<open>catch\<close>), or
  stalled at the \<open>await\<close> of a \<open>saveChunk\<close> promise that will never settle.
\<close>

datatype phase = Scheduled | Reading nat nat | Saving FileChunk | Finished | Failed | Stalled

record ChunkTask =
  tfile :: File
  tTotalChunks :: nat
  currentChunk :: nat
  phase :: phase

record ManifestEntry =
  mid :: nat
  mname :: string
  msize :: nat
  mtotalChunks :: "nat option"
  uploadedAt :: nat

text \<open>What the component does to the outside, in the order it does it.\<close>

datatype event =
    SaveChunkCalled FileChunk
  | SaveChunkResolved nat nat
  | ChunksCleared nat
  | UrlRevoked objurl
  | RecordRemoved nat
  | ManifestWritten kind
  | Warned nat
  | Alerted kind

text \<open>
  The component and its browser environment. \<open>images\<close> and \<open>videos\<close> hold references
  to \<open>PreviewFile\<close> objects, which live in \<open>heap\<close>; an object is addressed by its id,
  which \<open>handleFiles\<close> allocates afresh from \<open>idCounter\<close>. The closure of a file keeps
  writing to its object after the object has left both arrays.
\<close>

record state =
  images :: "nat list"
  videos :: "nat list"
  idCounter :: nat
  urlCounter :: nat
  heap :: "nat \<rightharpoonup> PreviewFile"
  dbPromise :: "DOMException + unit"
  chunks :: "ObjectStore option"
  tasks :: "nat \<rightharpoonup> ChunkTask"
  cleanups :: "nat list"
  localStorage :: "string \<rightharpoonup> ManifestEntry list"
  trace :: "event list"

section \<open>IndexedDB\<close>

text \<open>
  \<open>openDB\<close>: rejected where \<open>window.indexedDB\<close> is missing. Otherwise
  \<open>indexedDB.open("FileUploadDB", 1)\<close>: a database that does not exist yet is created
  and \<open>onupgradeneeded\<close> creates the object store \<open>chunks\<close>, with its key path and
  without any index; a database of version 1 is opened as it is; a newer one is
  refused. The argument is the database found (its version and its \<open>chunks\<close> store,
  if any), the result the outcome of the promise and the \<open>chunks\<close> store afterwards.
\<close>

definition openDB :: "bool \<Rightarrow> (nat \<times> ObjectStore option) option
    \<Rightarrow> (DOMException + unit) \<times> ObjectStore option" where
  "openDB supported existing =
     (if \<not> supported then (Inl NotSupportedError, None)
      else case existing of
        None \<Rightarrow> (Inr (), Some \<lparr>indexNames = [], rows = []\<rparr>)
      | Some (version, store) \<Rightarrow>
          if 1 < version then (Inl VersionError, store) else (Inr (), store))"

definition init :: "bool \<Rightarrow> (nat \<times> ObjectStore option) option \<Rightarrow> state" where
  \<comment> \<open>the constructor: empty arrays, \<open>idCounter = 0\<close>, \<open>dbPromise = openDB()\<close>\<close>
  "init supported existing =
     \<lparr>images = [], videos = [], idCounter = 0, urlCounter = 0, heap = Map.empty,
      dbPromise = fst (openDB supported existing),
      chunks = snd (openDB supported existing),
      tasks = Map.empty, cleanups = [], localStorage = Map.empty, trace = []\<rparr>"

definition emit :: "event \<Rightarrow> state \<Rightarrow> state" where
  "emit e s = s\<lparr>trace := trace s @ [e]\<rparr>"

definition put :: "FileChunk \<Rightarrow> FileChunk list \<Rightarrow> FileChunk list" where
  \<comment> \<open>\<open>objectStore.put\<close>: the row of the same key \<open>(fileId, chunkIndex)\<close> is replaced\<close>
  "put c rs =
     filter (\<lambda>r. \<not> (fileId r = fileId c \<and> chunkIndex r = chunkIndex c)) rs @ [c]"

definition getRow :: "FileChunk list \<Rightarrow> nat \<Rightarrow> nat \<Rightarrow> FileChunk option" where
  \<comment> \<open>the row of key \<open>(fileId, chunkIndex)\<close>\<close>
  "getRow rs i k = find (\<lambda>r. fileId r = i \<and> chunkIndex r = k) rs"

text \<open>
  \<open>saveChunk\<close> and \<open>clearChunksByFileId\<close> await \<open>dbPromise\<close> and open a transaction on
  \<open>chunks\<close>, which throws where the store is missing. Their promise is settled by two
  handlers only: \<open>tx.oncomplete\<close> resolves it and \<open>tx.onerror\<close> rejects it with
  \<open>tx.error\<close>. A transaction ends with one of three events: \<open>complete\<close>; \<open>error\<close>, when
  a request failed and its error event reached the transaction; or \<open>abort\<close> alone,
  when the transaction is aborted without any request failing (the commit fails, the
  quota is exceeded). There is no \<open>tx.onabort\<close>: after \<open>abort\<close> alone the promise never
  settles, which is the result \<open>None\<close> of \<open>saveChunk\<close>.

  For \<open>clearChunksByFileId\<close>, \<open>txOk\<close> tells \<open>complete\<close> from \<open>error\<close>. A removal whose
  transaction only aborts never goes on after its \<open>await\<close> and changes nothing: for
  \<open>removePreview\<close> that is a run without the removal, and for a callback of \<open>removeAll\<close>
  it is what a rejection does, the callback ending before the revocation.
  \<open>clearChunksByFileId\<close> asks the store for its index \<open>fileId\<close>, which throws
  \<open>NotFoundError\<close> inside the promise executor where the store has no such index.
\<close>

datatype txEvent = Complete | Error | Abort

definition saveChunk :: "txEvent \<Rightarrow> FileChunk \<Rightarrow> state
    \<Rightarrow> (DOMException + unit) option \<times> state" where
  "saveChunk ev chunk s =
     (case dbPromise s of
        Inl e \<Rightarrow> (Some (Inl e), s)
      | Inr _ \<Rightarrow>
         (case chunks s of
            None \<Rightarrow> (Some (Inl NotFoundError), s)
          | Some store \<Rightarrow>
             (case ev of
                Complete \<Rightarrow>
                  (Some (Inr ()), s\<lparr>chunks := Some (store\<lparr>rows := put chunk (rows store)\<rparr>)\<rparr>)
              | Error \<Rightarrow> (Some (Inl TransactionError), s)
              | Abort \<Rightarrow> (None, s))))"

definition clearChunksByFileId :: "bool \<Rightarrow> nat \<Rightarrow> state \<Rightarrow> (DOMException + unit) \<times> state" where
  "clearChunksByFileId txOk i s =
     (case dbPromise s of
        Inl e \<Rightarrow> (Inl e, s)
      | Inr _ \<Rightarrow>
         (case chunks s of
            None \<Rightarrow> (Inl NotFoundError, s)
          | Some store \<Rightarrow>
              if ''fileId'' \<notin> set (indexNames store) then (Inl NotFoundError, s)
              else if txOk
              then (Inr (), emit (ChunksCleared i)
                     (s\<lparr>chunks := Some (store\<lparr>rows := filter (\<lambda>r. fileId r \<noteq> i) (rows store)\<rparr>)\<rparr>))
              else (Inl TransactionError, s)))"

section \<open>The chunk pipeline\<close>

definition slice :: "byte list \<Rightarrow> nat \<Rightarrow> nat \<Rightarrow> byte list" where
  \<comment> \<open>the bytes of \<open>file.slice(start, stop)\<close>\<close>
  "slice bs start stop = take (stop - start) (drop start bs)"

definition updObj :: "nat \<Rightarrow> (PreviewFile \<Rightarrow> PreviewFile) \<Rightarrow> state \<Rightarrow> state" where
  "updObj i f s = s\<lparr>heap := (heap s)(i := map_option f (heap s i))\<rparr>"

definition setTask :: "nat \<Rightarrow> ChunkTask \<Rightarrow> state \<Rightarrow> state" where
  "setTask i t s = s\<lparr>tasks := (tasks s)(i \<mapsto> t)\<rparr>"

definition catchError :: "nat \<Rightarrow> ChunkTask \<Rightarrow> state \<Rightarrow> state" where
  \<comment> \<open>the \<open>catch\<close> block: \<open>placeholder.loading = false\<close>, no next chunk is scheduled\<close>
  "catchError i t s = setTask i (t\<lparr>phase := Failed\<rparr>) (updObj i (\<lambda>p. p\<lparr>loading := False\<rparr>) s)"

definition processNextChunk :: "nat \<Rightarrow> state \<Rightarrow> state" where
  \<comment> \<open>a call of \<open>processNextChunk\<close>, up to its first \<open>await\<close>\<close>
  "processNextChunk i s =
     (case tasks s i of
        None \<Rightarrow> s
      | Some t \<Rightarrow>
          if tTotalChunks t \<le> currentChunk t
          then setTask i (t\<lparr>phase := Finished\<rparr>)
                 (updObj i (\<lambda>p. p\<lparr>loading := False, progress := 100\<rparr>) s)
          else let start = currentChunk t * chunkSize;
                   stop = min (start + chunkSize) (length (bytes (tfile t)))
               in setTask i (t\<lparr>phase := Reading start stop\<rparr>) s)"

definition timerFired :: "nat \<Rightarrow> state \<Rightarrow> state" where
  \<comment> \<open>the callback of \<open>setTimeout(processNextChunk, 0)\<close>\<close>
  "timerFired i s =
     (case tasks s i of
        None \<Rightarrow> s
      | Some t \<Rightarrow> if phase t = Scheduled then processNextChunk i s else s)"

definition readSettled :: "nat \<Rightarrow> bool \<Rightarrow> state \<Rightarrow> state" where
  \<comment> \<open>\<open>await blob.arrayBuffer()\<close> returns or throws; on return \<open>saveChunk\<close> is called\<close>
  "readSettled i ok s =
     (case tasks s i of
        None \<Rightarrow> s
      | Some t \<Rightarrow>
         (case phase t of
            Reading start stop \<Rightarrow>
              if ok
              then let arrayBuffer = slice (bytes (tfile t)) start stop;
                       chunk = \<lparr>fileId = i, chunkIndex = currentChunk t,
                                chunkTotal = tTotalChunks t, data = arrayBuffer\<rparr>
                   in setTask i (t\<lparr>phase := Saving chunk\<rparr>) (emit (SaveChunkCalled chunk) s)
              else catchError i t s
          | _ \<Rightarrow> s))"

definition saveSettled :: "nat \<Rightarrow> txEvent \<Rightarrow> state \<Rightarrow> state" where
  \<comment> \<open>the transaction of the put ends: \<open>await this.saveChunk(...)\<close> returns, throws or
      is never resumed; on return \<open>currentChunk++\<close>, the progress is written and the
      next call is scheduled\<close>
  "saveSettled i ev s =
     (case tasks s i of
        None \<Rightarrow> s
      | Some t \<Rightarrow>
         (case phase t of
            Saving chunk \<Rightarrow>
              (case saveChunk ev chunk s of
                 (None, s') \<Rightarrow> setTask i (t\<lparr>phase := Stalled\<rparr>) s'
               | (Some (Inl e), s') \<Rightarrow> catchError i t s'
               | (Some (Inr _), s') \<Rightarrow>
                   let c = currentChunk t + 1;
                       percent = percentOf c (tTotalChunks t)
                   in setTask i (t\<lparr>currentChunk := c, phase := Scheduled\<rparr>)
                        (updObj i (\<lambda>p. p\<lparr>progress := percent\<rparr>)
                          (emit (SaveChunkResolved i (chunkIndex chunk)) s')))
          | _ \<Rightarrow> s))"

definition handleFile :: "kind \<Rightarrow> File \<Rightarrow> state \<Rightarrow> state" where
  \<comment> \<open>the body of the \<open>forEach\<close> of \<open>handleFiles\<close>, for one file\<close>
  "handleFile type file s =
     (let i = idCounter s + 1;
          objUrl = urlCounter s;
          total = totalChunksOf (length (bytes file));
          placeholder = \<lparr>pid = i, fileName = name file, psize = length (bytes file),
                         url = Some objUrl, objectUrl = Some objUrl,
                         loading = True, progress = 0, totalChunks = Some total\<rparr>;
          s1 = s\<lparr>idCounter := i, urlCounter := objUrl + 1, heap := (heap s)(i \<mapsto> placeholder)\<rparr>;
          s2 = (if type = Image then s1\<lparr>images := images s1 @ [i]\<rparr>
                else s1\<lparr>videos := videos s1 @ [i]\<rparr>);
          s3 = setTask i \<lparr>tfile = file, tTotalChunks = total, currentChunk = 0,
                          phase = Scheduled\<rparr> s2
      in processNextChunk i s3)"

definition handleFiles :: "File list \<Rightarrow> kind \<Rightarrow> state \<Rightarrow> state" where
  "handleFiles files type s = foldl (\<lambda>s' file. handleFile type file s') s files"

section \<open>Removal\<close>

definition itemsOf :: "kind \<Rightarrow> state \<Rightarrow> nat list" where
  \<comment> \<open>\<open>type === 'image' ? this.images : this.videos\<close>\<close>
  "itemsOf type s = (if type = Image then images s else videos s)"

definition revokeOf :: "nat \<Rightarrow> state \<Rightarrow> state" where
  \<comment> \<open>\<open>if (it.objectUrl) URL.revokeObjectURL(it.objectUrl)\<close>\<close>
  "revokeOf i s =
     (case heap s i of
        None \<Rightarrow> s
      | Some it \<Rightarrow> (case objectUrl it of None \<Rightarrow> s | Some u \<Rightarrow> emit (UrlRevoked u) s))"

definition removePreview :: "bool \<Rightarrow> nat \<Rightarrow> state \<Rightarrow> (DOMException + unit) \<times> state" where
  \<comment> \<open>\<open>await this.clearChunksByFileId(id)\<close> first; a rejection leaves the function there\<close>
  "removePreview txOk i s =
     (case clearChunksByFileId txOk i s of
        (Inl e, s') \<Rightarrow> (Inl e, s')
      | (Inr _, s') \<Rightarrow>
          if i \<in> set (images s')
          then (Inr (), emit (RecordRemoved i)
                 ((revokeOf i s')\<lparr>images := filter (\<lambda>j. j \<noteq> i) (images s')\<rparr>))
          else if i \<in> set (videos s')
          then (Inr (), emit (RecordRemoved i)
                 ((revokeOf i s')\<lparr>videos := filter (\<lambda>j. j \<noteq> i) (videos s')\<rparr>))
          else (Inr (), s'))"

definition removeAll :: "kind \<Rightarrow> state \<Rightarrow> state" where
  \<comment> \<open>every callback of the \<open>forEach\<close> stops at its \<open>await\<close> and is left pending; the
      array is emptied at once\<close>
  "removeAll type s =
     (let s1 = s\<lparr>cleanups := cleanups s @ itemsOf type s\<rparr>
      in if type = Image then s1\<lparr>images := []\<rparr> else s1\<lparr>videos := []\<rparr>)"

definition cleanupSettled :: "bool \<Rightarrow> state \<Rightarrow> state" where
  \<comment> \<open>the oldest pending callback of \<open>removeAll\<close> goes on after its \<open>await\<close>; a rejection
      ends it before the revocation\<close>
  "cleanupSettled txOk s =
     (case cleanups s of
        [] \<Rightarrow> s
      | i # rest \<Rightarrow>
         (case clearChunksByFileId txOk i (s\<lparr>cleanups := rest\<rparr>) of
            (Inl e, s') \<Rightarrow> s'
          | (Inr _, s') \<Rightarrow> revokeOf i s'))"

section \<open>Export\<close>

definition storageKey :: "kind \<Rightarrow> string" where
  "storageKey type = (if type = Image then ''uploaded_images'' else ''uploaded_videos'')"

definition manifestOf :: "(nat \<Rightarrow> nat) \<Rightarrow> PreviewFile list \<Rightarrow> ManifestEntry list" where
  \<comment> \<open>\<open>items.map(f => ({id, name, size, totalChunks, uploadedAt: Date.now()}))\<close>; the
      \<open>k\<close>-th call of \<open>Date.now()\<close> returns \<open>clock k\<close>\<close>
  "manifestOf clock fs =
     map (\<lambda>(k, f). \<lparr>mid = pid f, mname = fileName f, msize = psize f,
                     mtotalChunks = totalChunks f, uploadedAt = clock k\<rparr>)
       (enumerate 0 fs)"

fun verifyChunks :: "(nat \<Rightarrow> bool) \<Rightarrow> nat \<Rightarrow> PreviewFile list \<Rightarrow> state
    \<Rightarrow> (DOMException + unit) \<times> state" where
  "verifyChunks readOk k [] s = (Inr (), s)"
| "verifyChunks readOk k (f # fs) s =
     (case chunks s of
        None \<Rightarrow> (Inl NotFoundError, s)
      | Some store \<Rightarrow>
          if \<not> readOk k then (Inl UnknownError, s)
          else let allChunks = filter (\<lambda>c. fileId c = pid f) (rows store);
                   s' = (if length allChunks \<noteq> (case totalChunks f of None \<Rightarrow> 0 | Some n \<Rightarrow> n)
                         then emit (Warned (pid f)) s else s)
               in verifyChunks readOk (k + 1) fs s')"

definition uploadAll :: "kind \<Rightarrow> (nat \<Rightarrow> nat) \<Rightarrow> (nat \<Rightarrow> bool) \<Rightarrow> state
    \<Rightarrow> (DOMException + unit) \<times> state" where
  \<comment> \<open>\<open>readOk k\<close>: whether \<open>store.getAll()\<close> of the \<open>k\<close>-th record succeeds\<close>
  "uploadAll type clock readOk s =
     (let items = List.map_filter (heap s) (itemsOf type s)
      in if items = [] then (Inr (), s)
         else let s1 = emit (ManifestWritten type)
                         (s\<lparr>localStorage := (localStorage s)(storageKey type \<mapsto> manifestOf clock items)\<rparr>)
              in case dbPromise s1 of
                   Inl e \<Rightarrow> (Inl e, s1)
                 | Inr _ \<Rightarrow>
                    (case verifyChunks readOk 0 items s1 of
                       (Inl e, s2) \<Rightarrow> (Inl e, s2)
                     | (Inr _, s2) \<Rightarrow> (Inr (), emit (Alerted type) s2)))"

section \<open>The event loop\<close>

text \<open>
  What the browser delivers to the component: a drop or a selection of files, a timer,
  the outcome of a read or of a transaction, a click. \<open>SaveSettled i txOk\<close> is the
  transaction of a put ending with \<open>complete\<close> or with \<open>error\<close>, \<open>SaveAborted i\<close> its
  ending with \<open>abort\<close> alone. \<open>onPreviewLoaded\<close> changes nothing in this version. A run
  is any sequence of these, in any order and with any outcomes; one that finds no
  task waiting for it does nothing.
\<close>

datatype action =
    HandleFiles "File list" kind
  | TimerFired nat
  | ReadSettled nat bool
  | SaveSettled nat bool
  | SaveAborted nat
  | RemovePreview nat bool
  | RemoveAll kind
  | CleanupSettled bool
  | UploadAll kind "nat \<Rightarrow> nat" "nat \<Rightarrow> bool"
  | PreviewLoaded nat

fun step :: "action \<Rightarrow> state \<Rightarrow> state" where
  "step (HandleFiles files type) s = handleFiles files type s"
| "step (TimerFired i) s = timerFired i s"
| "step (ReadSettled i ok) s = readSettled i ok s"
| "step (SaveSettled i txOk) s = saveSettled i (if txOk then Complete else Error) s"
| "step (SaveAborted i) s = saveSettled i Abort s"
| "step (RemovePreview i txOk) s = snd (removePreview txOk i s)"
| "step (RemoveAll type) s = removeAll type s"
| "step (CleanupSettled txOk) s = cleanupSettled txOk s"
| "step (UploadAll type clock readOk) s = snd (uploadAll type clock readOk s)"
| "step (PreviewLoaded i) s = s"

fun actsOn :: "action \<Rightarrow> nat \<Rightarrow> bool" where
  \<comment> \<open>the events that belong to the pipeline of one file\<close>
  "actsOn (TimerFired j) i = (j = i)"
| "actsOn (ReadSettled j ok) i = (j = i)"
| "actsOn (SaveSettled j txOk) i = (j = i)"
| "actsOn (SaveAborted j) i = (j = i)"
| "actsOn _ i = False"

primrec run :: "action list \<Rightarrow> state \<Rightarrow> state" where
  "run [] s = s"
| "run (a # as) s = run as (step a s)"

section \<open>What the claims speak about\<close>

definition chunkOf :: "File \<Rightarrow> nat \<Rightarrow> nat \<Rightarrow> nat \<Rightarrow> FileChunk" where
  \<comment> \<open>the record of chunk \<open>k\<close> of a file: the bytes
      \<open>[k * chunkSize, min ((k + 1) * chunkSize) size)\<close>\<close>
  "chunkOf file i tot k =
     \<lparr>fileId = i, chunkIndex = k, chunkTotal = tot,
      data = slice (bytes file) (k * chunkSize)
               (min ((k + 1) * chunkSize) (length (bytes file)))\<rparr>"

fun isPutOf :: "nat \<Rightarrow> event \<Rightarrow> bool" where
  "isPutOf i (SaveChunkCalled c) = (fileId c = i)"
| "isPutOf i (SaveChunkResolved j k) = (j = i)"
| "isPutOf i _ = False"

definition putEvents :: "nat \<Rightarrow> event list \<Rightarrow> event list" where
  \<comment> \<open>the calls of \<open>saveChunk\<close> for one file id and their resolutions, in order\<close>
  "putEvents i tr = filter (isPutOf i) tr"

primrec orderedPuts :: "File \<Rightarrow> nat \<Rightarrow> nat \<Rightarrow> nat \<Rightarrow> event list" where
  \<comment> \<open>chunk \<open>0\<close> called and resolved, then chunk \<open>1\<close> called and resolved, and so on\<close>
  "orderedPuts file i tot 0 = []"
| "orderedPuts file i tot (Suc n) =
     orderedPuts file i tot n
       @ [SaveChunkCalled (chunkOf file i tot n), SaveChunkResolved i n]"

definition look :: "(PreviewFile \<Rightarrow> 'a) \<Rightarrow> state \<Rightarrow> nat \<Rightarrow> 'a option" where
  \<comment> \<open>a field of the \<open>PreviewFile\<close> object of an id\<close>
  "look field s i = (case heap s i of None \<Rightarrow> None | Some p \<Rightarrow> Some (field p))"

definition storedRows :: "state \<Rightarrow> FileChunk list" where
  "storedRows s = (case chunks s of None \<Rightarrow> [] | Some store \<Rightarrow> rows store)"


subsection \<open>Invariants of a run\<close>

definition structOk :: "nat \<Rightarrow> ChunkTask \<Rightarrow> bool" where
  "structOk i t =
     (totalChunksOf (length (bytes (tfile t))) = tTotalChunks t \<and>
      currentChunk t \<le> tTotalChunks t \<and>
      (case phase t of
         Reading a b \<Rightarrow> currentChunk t < tTotalChunks t \<and> a = currentChunk t * chunkSize \<and>
                         b = min (a + chunkSize) (length (bytes (tfile t)))
       | Saving c \<Rightarrow> currentChunk t < tTotalChunks t \<and>
                      c = chunkOf (tfile t) i (tTotalChunks t) (currentChunk t)
       | Finished \<Rightarrow> currentChunk t = tTotalChunks t
       | Scheduled \<Rightarrow> 0 < currentChunk t
       | Failed \<Rightarrow> currentChunk t < tTotalChunks t
       | Stalled \<Rightarrow> currentChunk t < tTotalChunks t))"

definition tracedOk :: "nat \<Rightarrow> ChunkTask \<Rightarrow> event list \<Rightarrow> bool" where
  "tracedOk i t tr =
     (case phase t of
        Saving c \<Rightarrow>
          putEvents i tr = orderedPuts (tfile t) i (tTotalChunks t) (currentChunk t)
                             @ [SaveChunkCalled c]
      | Stalled \<Rightarrow>
          putEvents i tr = orderedPuts (tfile t) i (tTotalChunks t) (currentChunk t)
            @ [SaveChunkCalled (chunkOf (tfile t) i (tTotalChunks t) (currentChunk t))]
      | Failed \<Rightarrow>
          putEvents i tr = orderedPuts (tfile t) i (tTotalChunks t) (currentChunk t) \<or>
          currentChunk t < tTotalChunks t \<and>
          putEvents i tr = orderedPuts (tfile t) i (tTotalChunks t) (currentChunk t)
            @ [SaveChunkCalled (chunkOf (tfile t) i (tTotalChunks t) (currentChunk t))]
      | _ \<Rightarrow> putEvents i tr = orderedPuts (tfile t) i (tTotalChunks t) (currentChunk t))"

definition progressOf :: "ChunkTask \<Rightarrow> int" where
  "progressOf t =
     (if phase t = Finished then 100
      else if currentChunk t = 0 then 0
      else percentOf (currentChunk t) (tTotalChunks t))"

definition heapOk :: "nat \<Rightarrow> ChunkTask \<Rightarrow> PreviewFile option \<Rightarrow> bool" where
  "heapOk i t po =
     (case po of
        None \<Rightarrow> False
      | Some p \<Rightarrow> pid p = i \<and> totalChunks p = Some (tTotalChunks t) \<and>
                  loading p = (phase t \<noteq> Finished \<and> phase t \<noteq> Failed) \<and>
                  progress p = progressOf t)"

definition dbOk :: "nat \<Rightarrow> ChunkTask \<Rightarrow> state \<Rightarrow> bool" where
  "dbOk i t s =
     (ChunksCleared i \<in> set (trace s) \<or>
      (\<forall>k < currentChunk t.
         getRow (storedRows s) i k = Some (chunkOf (tfile t) i (tTotalChunks t) k)))"

definition advanced :: "ChunkTask \<Rightarrow> ChunkTask \<Rightarrow> bool" where
  \<comment> \<open>what a step may do to a closure: it never goes back and, once returned, stays\<close>
  "advanced t t' =
     (tfile t' = tfile t \<and> tTotalChunks t' = tTotalChunks t \<and>
      currentChunk t \<le> currentChunk t' \<and>
      (phase t = Finished \<or> phase t = Failed \<or> phase t = Stalled \<longrightarrow> t' = t))"

definition taskOk :: "state \<Rightarrow> nat \<Rightarrow> bool" where
  "taskOk s i =
     (case tasks s i of
        None \<Rightarrow> heap s i = None \<and> (idCounter s < i \<longrightarrow> putEvents i (trace s) = [])
      | Some t \<Rightarrow> i \<le> idCounter s \<and> structOk i t \<and> tracedOk i t (trace s) \<and>
                  heapOk i t (heap s i) \<and> dbOk i t s)"

definition runInv :: "state \<Rightarrow> bool" where
  "runInv s = (\<forall>i. taskOk s i)"

definition unchangedFor :: "nat \<Rightarrow> state \<Rightarrow> state \<Rightarrow> bool" where
  \<comment> \<open>a step leaves the pipeline of file \<open>j\<close> as it was: its closure, its object, its
      puts and, unless its chunks are cleared, its rows\<close>
  "unchangedFor j s s' =
     (tasks s' j = tasks s j \<and> heap s' j = heap s j \<and>
      putEvents j (trace s') = putEvents j (trace s) \<and>
      idCounter s \<le> idCounter s' \<and>
      (ChunksCleared j \<in> set (trace s) \<longrightarrow> ChunksCleared j \<in> set (trace s')) \<and>
      (ChunksCleared j \<in> set (trace s') \<or>
       (\<forall>k. getRow (storedRows s') j k = getRow (storedRows s) j k)))"


fun isCleanup :: "event \<Rightarrow> bool" where
  "isCleanup (ChunksCleared i) = True"
| "isCleanup (UrlRevoked u) = True"
| "isCleanup _ = False"

definition cleanupEvents :: "state \<Rightarrow> event list" where
  \<comment> \<open>the chunk deletions and URL revocations done so far\<close>
  "cleanupEvents s = filter isCleanup (trace s)"



definition schemaOf :: "state \<Rightarrow> (DOMException + unit) \<times> string list option" where
  \<comment> \<open>what no step changes: the outcome of \<open>openDB\<close> and the indexes of the store\<close>
  "schemaOf s = (dbPromise s, map_option indexNames (chunks s))"

section \<open>Example runs\<close>

text \<open>A file of 300000 bytes, ingested to the end in a browser without a database.\<close>

definition photo :: File where
  "photo = \<lparr>name = ''photo.png'', bytes = replicate 262144 1 @ replicate 37856 2\<rparr>"

definition photoRun :: "action list" where
  "photoRun = [HandleFiles [photo] Image, ReadSettled 1 True, SaveSettled 1 True, TimerFired 1,
     ReadSettled 1 True, SaveSettled 1 True, TimerFired 1]"

text \<open>
  One round of a pipeline whose read and put succeed: the read settles, the put
  settles, the timer fires. \<open>taskAfter\<close> is the closure after \<open>k\<close> such rounds, when
  \<open>processNextChunk\<close> has been called again and stands at its next \<open>await\<close> or has
  returned.
\<close>

definition chunkRound :: "nat \<Rightarrow> action list" where
  "chunkRound i = [ReadSettled i True, SaveSettled i True, TimerFired i]"

definition chunkRounds :: "nat \<Rightarrow> nat \<Rightarrow> action list" where
  "chunkRounds i k = concat (replicate k (chunkRound i))"

definition taskAfter :: "File \<Rightarrow> nat \<Rightarrow> nat \<Rightarrow> ChunkTask" where
  "taskAfter f n k =
     \<lparr>tfile = f, tTotalChunks = n, currentChunk = k,
      phase = (if n \<le> k then Finished
               else Reading (k * chunkSize) (min (k * chunkSize + chunkSize) (length (bytes f))))\<rparr>"

text \<open>A file of 40 chunks, and the run up to the commit of its chunk 22.\<close>

definition clip :: File where
  "clip = \<lparr>name = ''clip.mp4'', bytes = replicate 10485760 0\<rparr>"

definition clipRun :: "action list" where
  "clipRun = HandleFiles [clip] Video # chunkRounds 1 22 @ [ReadSettled 1 True, SaveSettled 1 True]"

definition exactPercent :: "nat \<Rightarrow> nat \<Rightarrow> int" where
  \<comment> \<open>\<open>round(100 * (index + 1) / totalChunks)\<close> in exact arithmetic\<close>
  "exactPercent index n = Math_round (100 * of_nat (index + 1) / of_nat n)"

text \<open>
  The file of two chunks again: its first read succeeds, and the transaction of the
  put aborts without an error event.
\<close>

definition stalledRun :: "action list" where
  "stalledRun = [HandleFiles [photo] Image, ReadSettled 1 True, SaveAborted 1]"

text \<open>Both files dropped together.\<close>

definition pairRun :: "action list" where
  "pairRun = [HandleFiles [photo, clip] Image]"

text \<open>
  A database of version 1 found in the browser whose \<open>chunks\<close> store does have an
  index \<open>fileId\<close>; \<open>openDB\<close> opens it as it is.
\<close>

definition indexedDb :: "(nat \<times> ObjectStore option) option" where
  "indexedDb = Some (1, Some \<lparr>indexNames = [''fileId''], rows = []\<rparr>)"

section \<open>Rounding to the nearest double\<close>

lemma nlog2_nonneg: "0 \<le> nlog2 n"
  by (induction n rule: nlog2.induct) (subst nlog2.simps, simp)

lemma nlog2_bounds:
  "1 \<le> n \<Longrightarrow> 2 ^ nat (nlog2 n) \<le> n \<and> n < 2 * 2 ^ nat (nlog2 n)"
proof (induction n rule: nlog2.induct)
  case (1 n)
  show ?case
  proof (cases "n < 2")
    case True
    with 1 have "n = 1" by simp
    then show ?thesis by (simp add: nlog2.simps)
  next
    case False
    then have "1 \<le> n div 2" by simp
    with 1 False have IH: "2 ^ nat (nlog2 (n div 2)) \<le> n div 2 \<and>
        n div 2 < 2 * 2 ^ nat (nlog2 (n div 2))"
      by simp
    define p :: int where "p = 2 ^ nat (nlog2 (n div 2))"
    have e: "nlog2 n = 1 + nlog2 (n div 2)"
      using False by (subst nlog2.simps) simp
    have "nat (nlog2 n) = Suc (nat (nlog2 (n div 2)))"
      using e nlog2_nonneg [of "n div 2"] by simp
    then have p2: "(2::int) ^ nat (nlog2 n) = 2 * p" by (simp add: p_def)
    from IH have "p \<le> n div 2" and "n div 2 < 2 * p" by (simp_all add: p_def)
    then have "2 * p \<le> n \<and> n < 2 * (2 * p)" by arith
    then show ?thesis by (simp only: p2)
  qed
qed

lemma nlog2_bounds_rat:
  assumes "1 \<le> n"
  shows "2 powi nlog2 n \<le> (of_int n :: rat)" and "(of_int n :: rat) < 2 * 2 powi nlog2 n"
proof -
  have pw: "(2::rat) powi nlog2 n = of_int (2 ^ nat (nlog2 n))"
    using nlog2_nonneg [of n] by (simp add: power_int_def)
  from nlog2_bounds [OF assms]
  have a: "2 ^ nat (nlog2 n) \<le> n" and b: "n < 2 * 2 ^ nat (nlog2 n)" by simp_all
  from a have "(of_int (2 ^ nat (nlog2 n)) :: rat) \<le> of_int n" by (simp only: of_int_le_iff)
  then show "2 powi nlog2 n \<le> (of_int n :: rat)" by (simp only: pw)
  from b have "(of_int n :: rat) < of_int (2 * 2 ^ nat (nlog2 n))" by (simp only: of_int_less_iff)
  then show "(of_int n :: rat) < 2 * 2 powi nlog2 n" by (simp add: pw)
qed

lemma ilog2_bounds:
  assumes "0 < q"
  shows "2 powi ilog2 q \<le> q" and "q < 2 powi (ilog2 q + 1)"
proof -
  obtain a b where ab: "quotient_of q = (a, b)" by (cases "quotient_of q")
  then have bpos: "0 < b" by (rule quotient_of_denom_pos)
  from ab have q: "q = of_int a / of_int b" by (rule quotient_of_div)
  with assms bpos have apos: "0 < a" by (simp add: zero_less_divide_iff)
  define la lb where "la = nlog2 a" and "lb = nlog2 b"
  let ?a = "of_int a :: rat" and ?b = "of_int b :: rat"
  have A: "2 powi la \<le> ?a" "?a < 2 * 2 powi la"
    using nlog2_bounds_rat [of a] apos by (simp_all add: la_def)
  have B: "2 powi lb \<le> ?b" "?b < 2 * 2 powi lb"
    using nlog2_bounds_rat [of b] bpos by (simp_all add: lb_def)
  have pa: "(0::rat) < 2 powi la" and pb: "(0::rat) < 2 powi lb" by simp_all
  have up: "q < 2 powi (la - lb + 1)"
  proof -
    have "?a / ?b < (2 * 2 powi la) / 2 powi lb"
      using apos A(2) pb B(1) by (intro frac_less) simp_all
    also have "\<dots> = 2 powi (la - lb + 1)"
      by (simp add: power_int_add power_int_diff)
    finally show ?thesis by (simp only: q)
  qed
  have lo: "2 powi (la - lb - 1) < q"
  proof -
    have "2 powi la / (2 * 2 powi lb) < ?a / ?b"
      using pa A(1) bpos B(2) by (intro frac_less2) simp_all
    moreover have "2 powi la / (2 * 2 powi lb) = (2::rat) powi (la - lb - 1)"
      by (simp add: power_int_diff)
    ultimately show ?thesis by (simp only: q)
  qed
  have il: "ilog2 q = (if 2 powi (la - lb) \<le> q then la - lb else la - lb - 1)"
    by (simp add: ilog2_def ab la_def lb_def Let_def)
  show "2 powi ilog2 q \<le> q"
    using lo by (simp add: il)
  show "q < 2 powi (ilog2 q + 1)"
    using up by (cases "2 powi (la - lb) \<le> q") (simp_all add: il)
qed

lemma ilog2_unique:
  assumes "0 < q" and "2 powi k \<le> q" and "q < 2 powi (k + 1)"
  shows "ilog2 q = k"
proof (rule ccontr)
  assume ne: "ilog2 q \<noteq> k"
  note b = ilog2_bounds [OF assms(1)]
  show False
  proof (cases "ilog2 q < k")
    case True
    then have "(2::rat) powi (ilog2 q + 1) \<le> 2 powi k"
      by (intro power_int_increasing) simp_all
    with b(2) assms(2) show False by simp
  next
    case False
    with ne have "(2::rat) powi (k + 1) \<le> 2 powi ilog2 q"
      by (intro power_int_increasing) simp_all
    with b(1) assms(3) show False by simp
  qed
qed

lemma ilog2_mono:
  assumes "0 < q" and "q \<le> r"
  shows "ilog2 q \<le> ilog2 r"
proof (rule ccontr)
  assume "\<not> ilog2 q \<le> ilog2 r"
  then have "(2::rat) powi (ilog2 r + 1) \<le> 2 powi ilog2 q"
    by (intro power_int_increasing) simp_all
  moreover have "0 < r" using assms by simp
  ultimately show False
    using ilog2_bounds(1) [OF assms(1)] ilog2_bounds(2) [of r] assms(2) by simp
qed

lemma roundEven_of_int: "roundEven (of_int n) = n"
  by (simp add: roundEven_def)

lemma roundEven_range: "\<lfloor>x\<rfloor> \<le> roundEven x \<and> roundEven x \<le> \<lfloor>x\<rfloor> + 1"
  by (simp add: roundEven_def Let_def)

lemma roundEven_mono:
  assumes "x \<le> y"
  shows "roundEven x \<le> roundEven y"
proof (cases "\<lfloor>x\<rfloor> = \<lfloor>y\<rfloor>")
  case True
  with assms show ?thesis by (auto simp: roundEven_def Let_def)
next
  case False
  with assms have "\<lfloor>x\<rfloor> + 1 \<le> \<lfloor>y\<rfloor>" using floor_mono [of x y] by simp
  with roundEven_range [of x] roundEven_range [of y] show ?thesis by simp
qed

lemma roundEven_ge: "of_int n \<le> x \<Longrightarrow> n \<le> roundEven x"
  using roundEven_mono [of "of_int n" x] by (simp add: roundEven_of_int)

lemma roundEven_le: "x \<le> of_int n \<Longrightarrow> roundEven x \<le> n"
  using roundEven_mono [of x "of_int n"] by (simp add: roundEven_of_int)

lemma scaled_range:
  assumes "0 < q"
  shows "2 ^ 52 \<le> q / 2 powi (ilog2 q - 52)" and "q / 2 powi (ilog2 q - 52) \<le> 2 ^ 53"
proof -
  have p: "(0::rat) < 2 powi (ilog2 q - 52)" by simp
  have "(2::rat) powi ilog2 q = 2 ^ 52 * 2 powi (ilog2 q - 52)"
    by (simp add: power_int_diff)
  with ilog2_bounds(1) [OF assms] have "2 ^ 52 * 2 powi (ilog2 q - 52) \<le> q" by simp
  with p show "2 ^ 52 \<le> q / 2 powi (ilog2 q - 52)" by (simp add: pos_le_divide_eq)
  have "(2::rat) powi (ilog2 q + 1) = 2 ^ 53 * 2 powi (ilog2 q - 52)"
    by (simp add: power_int_diff power_int_add)
  with ilog2_bounds(2) [OF assms] have "q \<le> 2 ^ 53 * 2 powi (ilog2 q - 52)" by simp
  with p show "q / 2 powi (ilog2 q - 52) \<le> 2 ^ 53" by (simp add: pos_divide_le_eq)
qed

lemma fl_mono:
  assumes "0 < q" and "q \<le> r"
  shows "fl q \<le> fl r"
proof -
  have rpos: "0 < r" using assms by simp
  define e f where "e = ilog2 q - 52" and "f = ilog2 r - 52"
  have ef: "e \<le> f" using ilog2_mono [OF assms] by (simp add: e_def f_def)
  have flq: "fl q = of_int (roundEven (q / 2 powi e)) * 2 powi e"
    using assms(1) by (simp add: fl_def e_def Let_def)
  have flr: "fl r = of_int (roundEven (r / 2 powi f)) * 2 powi f"
    using rpos by (simp add: fl_def f_def Let_def)
  show ?thesis
  proof (cases "e = f")
    case True
    have "q / 2 powi e \<le> r / 2 powi e" using assms(2) by (simp add: divide_right_mono)
    then have "roundEven (q / 2 powi e) \<le> roundEven (r / 2 powi e)" by (rule roundEven_mono)
    then have "(of_int (roundEven (q / 2 powi e)) :: rat) \<le> of_int (roundEven (r / 2 powi e))"
      by simp
    then show ?thesis unfolding flq flr True by (intro mult_right_mono) simp_all
  next
    case False
    with ef have lt: "e + 1 \<le> f" by simp
    have "roundEven (q / 2 powi e) \<le> 2 ^ 53"
      using scaled_range(2) [OF assms(1)] by (intro roundEven_le) (simp add: e_def)
    then have "(of_int (roundEven (q / 2 powi e)) :: rat) \<le> of_int (2 ^ 53)"
      by (simp only: of_int_le_iff)
    then have "fl q \<le> 2 ^ 53 * 2 powi e" unfolding flq by (intro mult_right_mono) simp_all
    also have "\<dots> = 2 ^ 52 * 2 powi (e + 1)" by (simp add: power_int_add)
    also have "\<dots> \<le> 2 ^ 52 * 2 powi f"
      using lt by (intro mult_left_mono power_int_increasing) simp_all
    also have "\<dots> \<le> fl r"
    proof -
      have "2 ^ 52 \<le> roundEven (r / 2 powi f)"
        using scaled_range(1) [OF rpos] by (intro roundEven_ge) (simp add: f_def)
      then have "(of_int (2 ^ 52) :: rat) \<le> of_int (roundEven (r / 2 powi f))"
        by (simp only: of_int_le_iff)
      then show ?thesis unfolding flr by (intro mult_right_mono) simp_all
    qed
    finally show ?thesis .
  qed
qed

lemma fl_nonneg: "0 \<le> fl q"
proof (cases "0 < q")
  case True
  have "2 ^ 52 \<le> roundEven (q / 2 powi (ilog2 q - 52))"
    using scaled_range(1) [OF True] by (intro roundEven_ge) simp
  then have "0 \<le> roundEven (q / 2 powi (ilog2 q - 52))" by simp
  with True show ?thesis by (simp add: fl_def Let_def)
next
  case False
  then show ?thesis by (simp add: fl_def)
qed

lemma fl_exact:
  assumes "0 < q" and "q / 2 powi (ilog2 q - 52) = of_int m"
  shows "fl q = q"
proof -
  have "fl q = of_int (roundEven (of_int m)) * 2 powi (ilog2 q - 52)"
    using assms by (simp add: fl_def Let_def)
  also have "\<dots> = q / 2 powi (ilog2 q - 52) * 2 powi (ilog2 q - 52)"
    by (simp only: roundEven_of_int assms(2))
  also have "\<dots> = q" by simp
  finally show ?thesis .
qed

lemma fl_one: "fl 1 = 1" by code_simp
lemma fl_hundred: "fl 100 = 100" by code_simp

lemma Math_round_mono: "x \<le> y \<Longrightarrow> Math_round x \<le> Math_round y"
  by (simp add: Math_round_def floor_mono)

lemma percentOf_mono:
  assumes "0 < c" and "c \<le> d" and "0 < t"
  shows "percentOf c t \<le> percentOf d t"
proof -
  let ?q = "of_nat c / of_nat t :: rat" and ?r = "of_nat d / of_nat t :: rat"
  have q: "0 < ?q" using assms by simp
  have qr: "?q \<le> ?r" using assms by (simp add: divide_right_mono)
  have fq: "0 < fl ?q"
  proof -
    have "2 ^ 52 \<le> roundEven (?q / 2 powi (ilog2 ?q - 52))"
      using scaled_range(1) [OF q] by (intro roundEven_ge) simp
    then have "0 < roundEven (?q / 2 powi (ilog2 ?q - 52))" by simp
    with q show ?thesis by (simp add: fl_def Let_def)
  qed
  have "fl ?q \<le> fl ?r" using q qr by (rule fl_mono)
  then have "fl ?q * 100 \<le> fl ?r * 100" by simp
  moreover have "0 < fl ?q * 100" using fq by simp
  ultimately have "fl (fl ?q * 100) \<le> fl (fl ?r * 100)" by (intro fl_mono)
  then show ?thesis unfolding percentOf_def by (rule Math_round_mono)
qed

lemma Math_round_of_int: "Math_round (of_int n) = n"
  unfolding Math_round_def by (rule floor_unique) simp_all

lemma percentOf_full: "0 < t \<Longrightarrow> percentOf t t = 100"
  using Math_round_of_int [of 100] by (simp add: percentOf_def fl_one fl_hundred)

lemma percentOf_nonneg: "0 \<le> percentOf c t"
proof -
  have "0 \<le> fl (fl (of_nat c / of_nat t) * 100)" by (rule fl_nonneg)
  then have "0 \<le> fl (fl (of_nat c / of_nat t) * 100) + 1/2" by simp
  then show ?thesis unfolding percentOf_def Math_round_def by (simp only: zero_le_floor of_int_0)
qed

lemma percentOf_le_100: "0 < c \<Longrightarrow> c \<le> t \<Longrightarrow> percentOf c t \<le> 100"
  using percentOf_mono [of c t t] percentOf_full [of t] by simp

lemma fl_div_pow2:
  assumes n1: "1 \<le> n" and n53: "n < 2 ^ 53"
  shows "fl (of_int n / 2 powi k) = of_int n / 2 powi k"
proof -
  define l where "l = nlog2 n"
  define q :: rat where "q = of_int n / 2 powi k"
  have q: "0 < q" using n1 by (simp add: q_def)
  have b: "2 powi l \<le> (of_int n :: rat)" "(of_int n :: rat) < 2 * 2 powi l"
    using nlog2_bounds_rat [OF n1] by (simp_all add: l_def)
  have "(of_int n :: rat) < of_int (2 ^ 53)" using n53 by (simp only: of_int_less_iff)
  then have "(of_int n :: rat) < 2 powi 53" by simp
  with b(1) have lt: "(2::rat) powi l < 2 powi 53" by simp
  have l52: "l \<le> 52"
  proof (rule ccontr)
    assume "\<not> l \<le> 52"
    then have "(2::rat) powi 53 \<le> 2 powi l" by (intro power_int_increasing) simp_all
    with lt show False by simp
  qed
  have il: "ilog2 q = l - k"
  proof (rule ilog2_unique [OF q])
    have "(2::rat) powi (l - k) = 2 powi l / 2 powi k" by (simp add: power_int_diff)
    also have "\<dots> \<le> q" unfolding q_def using b(1) by (intro divide_right_mono) simp_all
    finally show "2 powi (l - k) \<le> q" .
    have "q < 2 * 2 powi l / 2 powi k"
      unfolding q_def using b(2) by (intro divide_strict_right_mono) simp_all
    also have "\<dots> = 2 powi (l - k + 1)" by (simp add: power_int_diff power_int_add)
    finally show "q < 2 powi (l - k + 1)" .
  qed
  have h: "(2::rat) powi (l - k - 52) = 2 powi (l - 52) / 2 powi k"
    using power_int_diff [of "2::rat" "l - 52" k] by (simp add: algebra_simps)
  have "q / 2 powi (ilog2 q - 52) = q / (2 powi (l - 52) / 2 powi k)"
    by (simp only: il h)
  also have "\<dots> = of_int n / 2 powi (l - 52)"
    by (simp add: q_def)
  also have "\<dots> = of_int n * 2 powi (52 - l)"
    using power_int_minus [of "2::rat" "l - 52"] by (simp add: field_simps)
  also have "\<dots> = of_int (n * 2 ^ nat (52 - l))"
    using l52 by (simp add: power_int_def)
  finally have "fl q = q" by (rule fl_exact [OF q])
  then show ?thesis by (simp only: q_def)
qed

lemma fl_div_chunkSize:
  assumes "sz < 2 ^ 53"
  shows "fl (of_nat sz / of_nat chunkSize) = of_nat sz / of_nat chunkSize"
proof (cases "sz = 0")
  case True
  then show ?thesis by (simp add: fl_def)
next
  case False
  have c: "(of_nat chunkSize :: rat) = 2 powi 18" by (simp add: chunkSize_def)
  have "int sz < 2 ^ 53" using assms by simp
  moreover have "1 \<le> int sz" using False by simp
  ultimately have "fl (of_int (int sz) / 2 powi 18) = of_int (int sz) / 2 powi 18"
    by (intro fl_div_pow2)
  then show ?thesis by (simp only: c of_int_of_nat_eq)
qed

lemma ceiling_div_nat:
  assumes "0 < b"
  shows "nat \<lceil>(of_nat a :: rat) / of_nat b\<rceil> = (a + (b - 1)) div b"
proof -
  define z where "z = (a + (b - 1)) div b"
  define r where "r = (a + (b - 1)) mod b"
  define m where "m = b * z"
  have e: "a + (b - 1) = m + r" by (simp add: z_def r_def m_def)
  have r: "r < b" using assms by (simp add: r_def)
  from e r assms have up: "a \<le> m" and lo: "m < a + b" by linarith+
  have bpos: "(0::rat) < of_nat b" using assms by simp
  have "(of_nat a :: rat) \<le> of_nat m" using up by (simp only: of_nat_le_iff)
  then have "(of_nat a :: rat) \<le> of_int (int z) * of_nat b" by (simp add: m_def mult.commute)
  then have le: "(of_nat a :: rat) / of_nat b \<le> of_int (int z)"
    using bpos by (simp only: pos_divide_le_eq)
  have "(of_nat m :: rat) < of_nat (a + b)" using lo by (simp only: of_nat_less_iff)
  then have "(of_int (int z) - 1) * (of_nat b :: rat) < of_nat a"
    by (simp add: m_def algebra_simps)
  then have gt: "of_int (int z) - 1 < (of_nat a :: rat) / of_nat b"
    using bpos by (simp only: pos_less_divide_eq)
  have "\<lceil>(of_nat a :: rat) / of_nat b\<rceil> = int z" using gt le by (rule ceiling_unique)
  then show ?thesis by (simp add: z_def)
qed

lemma totalChunksOf_exact:
  assumes "sz < 2 ^ 53"
  shows "totalChunksOf sz = (sz + (chunkSize - 1)) div chunkSize"
proof -
  have "0 < chunkSize" by (simp add: chunkSize_def)
  then show ?thesis
    unfolding totalChunksOf_def Math_ceil_def fl_div_chunkSize [OF assms]
    by (rule ceiling_div_nat)
qed

section \<open>Accepting files\<close>

lemmas op_defs = handleFile_def processNextChunk_def timerFired_def readSettled_def
  saveSettled_def saveChunk_def clearChunksByFileId_def removePreview_def removeAll_def
  cleanupSettled_def revokeOf_def catchError_def setTask_def updObj_def emit_def

lemma handleFile_idCounter: "idCounter (handleFile type f s) = idCounter s + 1"
  by (simp add: op_defs Let_def)

lemma handleFile_heap_other:
  "j \<noteq> idCounter s + 1 \<Longrightarrow> heap (handleFile type f s) j = heap s j"
  by (simp add: op_defs Let_def)

lemma handleFile_heap_new:
  "look totalChunks (handleFile type f s) (Suc (idCounter s))
     = Some (Some (totalChunksOf (length (bytes f))))"
  by (simp add: op_defs Let_def look_def)

lemma handleFiles_Cons:
  "handleFiles (f # fs) type s = handleFiles fs type (handleFile type f s)"
  by (simp add: handleFiles_def)

lemma handleFiles_heap_old:
  "j \<le> idCounter s \<Longrightarrow> heap (handleFiles fs type s) j = heap s j"
proof (induction fs arbitrary: s)
  case Nil
  then show ?case by (simp add: handleFiles_def)
next
  case (Cons f fs)
  have "heap (handleFiles fs type (handleFile type f s)) j = heap (handleFile type f s) j"
    using Cons.prems by (intro Cons.IH) (simp add: handleFile_idCounter)
  also have "\<dots> = heap s j" using Cons.prems by (intro handleFile_heap_other) simp
  finally show ?case by (simp only: handleFiles_Cons)
qed

lemma handleFiles_totalChunks:
  "k < length files \<Longrightarrow>
   look totalChunks (handleFiles files type s) (Suc (idCounter s + k))
     = Some (Some (totalChunksOf (length (bytes (files ! k)))))"
proof (induction files arbitrary: s k)
  case Nil
  then show ?case by simp
next
  case (Cons f fs)
  show ?case
  proof (cases k)
    case 0
    have "heap (handleFiles fs type (handleFile type f s)) (Suc (idCounter s))
        = heap (handleFile type f s) (Suc (idCounter s))"
      by (intro handleFiles_heap_old) (simp add: handleFile_idCounter)
    then have "look totalChunks (handleFiles fs type (handleFile type f s)) (Suc (idCounter s))
        = look totalChunks (handleFile type f s) (Suc (idCounter s))"
      by (simp add: look_def)
    then show ?thesis using 0 by (simp add: handleFiles_Cons handleFile_heap_new)
  next
    case (Suc k')
    with Cons.prems have "k' < length fs" by simp
    from Cons.IH [OF this, of "handleFile type f s"]
    show ?thesis using Suc by (simp add: handleFiles_Cons handleFile_idCounter)
  qed
qed

section \<open>The invariant of a run\<close>

lemmas inv_defs = taskOk_def structOk_def tracedOk_def heapOk_def dbOk_def progressOf_def

lemma tracedOk_cong:
  "putEvents i tr' = putEvents i tr \<Longrightarrow> tracedOk i t tr' = tracedOk i t tr"
  by (cases "phase t") (simp_all add: tracedOk_def)

lemma dbOk_unchanged:
  assumes "dbOk j t s"
    and "ChunksCleared j \<in> set (trace s) \<longrightarrow> ChunksCleared j \<in> set (trace s')"
    and "ChunksCleared j \<in> set (trace s') \<or>
         (\<forall>k. getRow (storedRows s') j k = getRow (storedRows s) j k)"
    and "tfile t' = tfile t" and "tTotalChunks t' = tTotalChunks t"
    and "currentChunk t' = currentChunk t"
  shows "dbOk j t' s'"
  using assms unfolding dbOk_def by auto

lemma taskOk_unchanged:
  assumes "taskOk s j" and "unchangedFor j s s'"
  shows "taskOk s' j"
proof (cases "tasks s j")
  case None
  with assms show ?thesis by (simp add: taskOk_def unchangedFor_def)
next
  case (Some t)
  with assms have "dbOk j t s'"
    by - (rule dbOk_unchanged [of j t s], simp_all add: taskOk_def unchangedFor_def)
  moreover have "tracedOk j t (trace s') = tracedOk j t (trace s)"
    using assms(2) by (intro tracedOk_cong) (simp add: unchangedFor_def)
  ultimately show ?thesis using assms Some
    by (simp add: taskOk_def unchangedFor_def)
qed

lemma unchangedFor_refl: "unchangedFor j s s"
  by (simp add: unchangedFor_def)

lemma getRow_put_other: "fileId c \<noteq> j \<Longrightarrow> getRow (put c rs) j k = getRow rs j k"
  by (induction rs) (auto simp: getRow_def put_def)

lemma getRow_put_same: "getRow (put c rs) (fileId c) (chunkIndex c) = Some c"
  by (induction rs) (auto simp: getRow_def put_def)

lemma getRow_put_other_index:
  "chunkIndex c \<noteq> k \<Longrightarrow> getRow (put c rs) j k = getRow rs j k"
  by (induction rs) (auto simp: getRow_def put_def)

lemma getRow_filter_other:
  "j \<noteq> i \<Longrightarrow> getRow (filter (\<lambda>r. fileId r \<noteq> i) rs) j k = getRow rs j k"
  by (induction rs) (auto simp: getRow_def)

lemma unchangedFor_timerFired: "j \<noteq> i \<Longrightarrow> unchangedFor j s (timerFired i s)"
  by (simp add: unchangedFor_def timerFired_def processNextChunk_def setTask_def updObj_def Let_def
      storedRows_def split: option.splits)


lemma unchangedFor_readSettled: "j \<noteq> i \<Longrightarrow> unchangedFor j s (readSettled i ok s)"
  by (simp add: unchangedFor_def readSettled_def catchError_def setTask_def updObj_def emit_def
      putEvents_def storedRows_def Let_def split: option.splits phase.splits)

lemma outcome_cases:
  fixes r :: "('e + unit) option"
  obtains "r = None" | e where "r = Some (Inl e)" | "r = Some (Inr ())"
proof (cases r)
  case None
  then show ?thesis by (rule that(1))
next
  case (Some a)
  then show ?thesis by (cases a) (auto intro: that)
qed

lemma saveChunk_unsettled:
  "saveChunk ev c s = (None, s') \<Longrightarrow> s' = s"
  "saveChunk ev c s = (Some (Inl e), s') \<Longrightarrow> s' = s"
  by (auto simp: saveChunk_def split: sum.splits option.splits txEvent.splits)

lemma saveChunk_resolved:
  "saveChunk ev c s = (Some (Inr u), s') \<Longrightarrow>
   \<exists>store. chunks s = Some store \<and> s' = s\<lparr>chunks := Some (store\<lparr>rows := put c (rows store)\<rparr>)\<rparr>"
  by (auto simp: saveChunk_def split: sum.splits option.splits txEvent.splits)

lemma unchangedFor_saveSettled:
  assumes "j \<noteq> i" and "taskOk s i"
  shows "unchangedFor j s (saveSettled i ev s)"
proof (cases "tasks s i")
  case None
  then show ?thesis by (simp add: saveSettled_def unchangedFor_refl)
next
  case (Some t)
  show ?thesis
  proof (cases "phase t")
    case (Saving c)
    with assms Some have c: "fileId c = i" by (simp add: taskOk_def structOk_def chunkOf_def)
    with assms(1) have "fileId c \<noteq> j" by simp
    then show ?thesis using assms(1) Some Saving
      by (simp add: unchangedFor_def saveSettled_def saveChunk_def catchError_def setTask_def
          updObj_def emit_def putEvents_def storedRows_def getRow_put_other Let_def
          split: option.splits sum.splits txEvent.splits)
  qed (simp_all add: Some saveSettled_def unchangedFor_refl)
qed

lemma putEvents_snoc: "putEvents i (tr @ [e]) = putEvents i tr @ (if isPutOf i e then [e] else [])"
  by (simp add: putEvents_def)

lemma storedRows_update [simp]:
  "storedRows (s\<lparr>heap := h\<rparr>) = storedRows s"
  "storedRows (s\<lparr>tasks := ts\<rparr>) = storedRows s"
  "storedRows (s\<lparr>trace := tr\<rparr>) = storedRows s"
  "storedRows (s\<lparr>images := xs\<rparr>) = storedRows s"
  "storedRows (s\<lparr>videos := xs\<rparr>) = storedRows s"
  "storedRows (s\<lparr>cleanups := xs\<rparr>) = storedRows s"
  "storedRows (s\<lparr>idCounter := n\<rparr>) = storedRows s"
  "storedRows (s\<lparr>urlCounter := n\<rparr>) = storedRows s"
  "storedRows (s\<lparr>localStorage := ls\<rparr>) = storedRows s"
  "storedRows (s\<lparr>chunks := Some store\<rparr>) = rows store"
  by (simp_all add: storedRows_def)

lemma dbOk_update [simp]:
  "dbOk i t (s\<lparr>heap := h\<rparr>) = dbOk i t s"
  "dbOk i t (s\<lparr>tasks := ts\<rparr>) = dbOk i t s"
  "dbOk i t (s\<lparr>images := xs\<rparr>) = dbOk i t s"
  "dbOk i t (s\<lparr>videos := xs\<rparr>) = dbOk i t s"
  "dbOk i t (s\<lparr>cleanups := xs\<rparr>) = dbOk i t s"
  "dbOk i t (s\<lparr>idCounter := n\<rparr>) = dbOk i t s"
  "dbOk i t (s\<lparr>urlCounter := n\<rparr>) = dbOk i t s"
  "dbOk i t (s\<lparr>localStorage := ls\<rparr>) = dbOk i t s"
  by (simp_all add: dbOk_def)

lemma chunkOf_eq:
  "\<lparr>fileId = i, chunkIndex = k, chunkTotal = n,
    data = slice (bytes f) (k * chunkSize)
             (min (k * chunkSize + chunkSize) (length (bytes f)))\<rparr> = chunkOf f i n k"
  by (simp add: chunkOf_def add.commute)

lemma chunkOf_sel [simp]:
  "fileId (chunkOf f i n k) = i" "chunkIndex (chunkOf f i n k) = k"
  "chunkTotal (chunkOf f i n k) = n"
  by (simp_all add: chunkOf_def)

lemma taskOk_timerFired_same:
  assumes "taskOk s i"
  shows "taskOk (timerFired i s) i"
proof (cases "tasks s i")
  case None
  then show ?thesis using assms by (simp add: timerFired_def)
next
  case (Some t)
  show ?thesis
  proof (cases "phase t = Scheduled")
    case False
    then show ?thesis using assms Some by (simp add: timerFired_def)
  next
    case True
    then show ?thesis using assms Some
      by (cases "heap s i")
         (simp_all add: inv_defs storedRows_def timerFired_def processNextChunk_def setTask_def
            updObj_def Let_def)
  qed
qed

lemma taskOk_readSettled_same:
  assumes "taskOk s i"
  shows "taskOk (readSettled i ok s) i"
proof (cases "tasks s i")
  case None
  then show ?thesis using assms by (simp add: readSettled_def)
next
  case (Some t)
  show ?thesis
  proof (cases "phase t")
    case (Reading a b)
    then show ?thesis using assms Some
      by (cases "heap s i")
         (simp_all add: inv_defs storedRows_def readSettled_def catchError_def setTask_def
            updObj_def emit_def putEvents_snoc chunkOf_eq Let_def)
  qed (use assms Some in \<open>simp_all add: readSettled_def\<close>)
qed


lemma taskOk_saveSettled_same:
  assumes "taskOk s i"
  shows "taskOk (saveSettled i ev s) i"
proof (cases "tasks s i")
  case None
  then show ?thesis using assms by (simp add: saveSettled_def)
next
  case (Some t)
  show ?thesis
  proof (cases "phase t")
    case (Saving c)
    with assms Some have c: "c = chunkOf (tfile t) i (tTotalChunks t) (currentChunk t)"
      by (simp add: taskOk_def structOk_def)
    obtain p where p: "heap s i = Some p"
      using assms Some by (cases "heap s i") (simp_all add: taskOk_def heapOk_def)
    show ?thesis
    proof (cases "saveChunk ev c s")
      case (Pair r s')
      consider "r = None" | e where "r = Some (Inl e)" | u where "r = Some (Inr u)"
        by (rule outcome_cases [of r]) auto
      then show ?thesis
      proof cases
        case 1
        with Pair have "s' = s" by (auto dest: saveChunk_unsettled)
        with 1 Pair Saving Some assms p c show ?thesis
          by (simp add: inv_defs saveSettled_def setTask_def)
      next
        case 2
        with Pair have "s' = s" by (auto dest: saveChunk_unsettled)
        with 2 Pair Saving Some assms p c show ?thesis
          by (simp add: inv_defs saveSettled_def catchError_def setTask_def updObj_def)
      next
        case 3
        with Pair obtain store where st: "chunks s = Some store"
          and s': "s' = s\<lparr>chunks := Some (store\<lparr>rows := put c (rows store)\<rparr>)\<rparr>"
          using saveChunk_resolved [of ev c s u s'] by auto
        have db: "dbOk i (t\<lparr>currentChunk := currentChunk t + 1, phase := Scheduled\<rparr>)
            (s'\<lparr>trace := trace s @ [SaveChunkResolved i (currentChunk t)]\<rparr>)"
        proof (cases "ChunksCleared i \<in> set (trace s)")
          case True
          then show ?thesis by (simp add: dbOk_def)
        next
          case False
          with assms Some have old: "\<forall>k < currentChunk t.
              getRow (rows store) i k = Some (chunkOf (tfile t) i (tTotalChunks t) k)"
            by (simp add: taskOk_def dbOk_def storedRows_def st)
          have "getRow (put c (rows store)) i k = Some (chunkOf (tfile t) i (tTotalChunks t) k)"
            if "k < currentChunk t + 1" for k
          proof (cases "k = currentChunk t")
            case True
            then show ?thesis using getRow_put_same [of c "rows store"] by (simp add: c)
          next
            case False
            with that have "k < currentChunk t" by simp
            moreover have "chunkIndex c \<noteq> k" using False by (simp add: c)
            ultimately show ?thesis using old by (simp add: getRow_put_other_index)
          qed
          then show ?thesis by (simp add: dbOk_def storedRows_def s')
        qed
        from 3 Pair Saving Some assms p db show ?thesis
          by (simp add: taskOk_def structOk_def tracedOk_def heapOk_def progressOf_def
              saveSettled_def setTask_def updObj_def emit_def putEvents_snoc Let_def s' c)
      qed
    qed
  qed (use assms Some in \<open>simp_all add: saveSettled_def\<close>)
qed


lemma unchangedFor_trans:
  "unchangedFor j s s' \<Longrightarrow> unchangedFor j s' s'' \<Longrightarrow> unchangedFor j s s''"
  by (auto simp: unchangedFor_def)

lemma unchangedFor_clearChunksByFileId:
  "unchangedFor j s (snd (clearChunksByFileId txOk i s))"
  by (cases "j = i")
     (auto simp: unchangedFor_def clearChunksByFileId_def emit_def putEvents_snoc
        getRow_filter_other storedRows_def split: sum.splits option.splits)

lemma unchangedFor_revokeOf: "unchangedFor j s (revokeOf i s)"
  by (simp add: unchangedFor_def revokeOf_def emit_def putEvents_snoc split: option.splits)

lemma unchangedFor_removePreview: "unchangedFor j s (snd (removePreview txOk i s))"
proof (cases "clearChunksByFileId txOk i s")
  case (Pair r s')
  then have u: "unchangedFor j s s'"
    using unchangedFor_clearChunksByFileId [of j s txOk i] by simp
  show ?thesis
  proof (cases r)
    case (Inl e)
    with Pair u show ?thesis by (simp add: removePreview_def)
  next
    case (Inr x)
    have "unchangedFor j s' (snd (removePreview txOk i s))"
      using Pair Inr unchangedFor_revokeOf [of j s' i]
      by (simp add: removePreview_def unchangedFor_def emit_def putEvents_snoc)
    with u show ?thesis by (rule unchangedFor_trans)
  qed
qed

lemma unchangedFor_removeAll: "unchangedFor j s (removeAll type s)"
  by (simp add: unchangedFor_def removeAll_def Let_def)

lemma unchangedFor_cleanupSettled: "unchangedFor j s (cleanupSettled txOk s)"
proof (cases "cleanups s")
  case Nil
  then show ?thesis by (simp add: cleanupSettled_def unchangedFor_refl)
next
  case (Cons i rest)
  let ?s0 = "s\<lparr>cleanups := rest\<rparr>"
  have u0: "unchangedFor j s ?s0" by (simp add: unchangedFor_def)
  obtain r s' where p: "clearChunksByFileId txOk i ?s0 = (r, s')"
    by (cases "clearChunksByFileId txOk i ?s0")
  then have u1: "unchangedFor j ?s0 s'"
    using unchangedFor_clearChunksByFileId [of j ?s0 txOk i] by simp
  have "unchangedFor j s' (cleanupSettled txOk s)"
    using Cons p unchangedFor_revokeOf [of j s' i]
    by (cases r) (simp_all add: cleanupSettled_def unchangedFor_refl)
  with u0 u1 show ?thesis by (blast intro: unchangedFor_trans)
qed

lemma unchangedFor_verifyChunks: "unchangedFor j s (snd (verifyChunks readOk k fs s))"
proof (induction fs arbitrary: k s)
  case Nil
  then show ?case by (simp add: unchangedFor_refl)
next
  case (Cons f fs)
  show ?case
  proof (cases "chunks s")
    case None
    then show ?thesis by (simp add: unchangedFor_refl)
  next
    case (Some store)
    show ?thesis
    proof (cases "readOk k")
      case False
      with Some show ?thesis by (simp add: unchangedFor_refl)
    next
      case True
      define s' where "s' = (if length (filter (\<lambda>c. fileId c = pid f) (rows store))
            \<noteq> (case totalChunks f of None \<Rightarrow> 0 | Some n \<Rightarrow> n)
          then emit (Warned (pid f)) s else s)"
      have u: "unchangedFor j s s'"
        by (simp add: s'_def unchangedFor_def emit_def putEvents_snoc)
      have "snd (verifyChunks readOk k (f # fs) s) = snd (verifyChunks readOk (k + 1) fs s')"
        using Some True by (simp add: s'_def Let_def)
      with u Cons.IH [of s' "k + 1"] show ?thesis by (auto intro: unchangedFor_trans)
    qed
  qed
qed

lemma unchangedFor_uploadAll: "unchangedFor j s (snd (uploadAll type clock readOk s))"
proof -
  let ?items = "List.map_filter (heap s) (itemsOf type s)"
  let ?s1 = "emit (ManifestWritten type)
     (s\<lparr>localStorage := (localStorage s)(storageKey type \<mapsto> manifestOf clock ?items)\<rparr>)"
  have u1: "unchangedFor j s ?s1" by (simp add: unchangedFor_def emit_def putEvents_snoc)
  obtain r s2 where v: "verifyChunks readOk 0 ?items ?s1 = (r, s2)"
    by (cases "verifyChunks readOk 0 ?items ?s1")
  then have u2: "unchangedFor j ?s1 s2"
    using unchangedFor_verifyChunks [of j ?s1 readOk 0 ?items] by simp
  have u3: "unchangedFor j s2 (emit (Alerted type) s2)"
    by (simp add: unchangedFor_def emit_def putEvents_snoc)
  show ?thesis
  proof (cases "?items = []")
    case True
    then show ?thesis by (simp add: uploadAll_def unchangedFor_refl)
  next
    case False
    show ?thesis
    proof (cases "dbPromise ?s1")
      case (Inl e)
      with False u1 show ?thesis by (simp add: uploadAll_def Let_def)
    next
      case (Inr x)
      with False v have "snd (uploadAll type clock readOk s)
          = (case r of Inl e \<Rightarrow> s2 | Inr _ \<Rightarrow> emit (Alerted type) s2)"
        by (simp add: uploadAll_def Let_def split: sum.splits)
      with u1 u2 u3 show ?thesis
        by (cases r) (auto intro: unchangedFor_trans)
    qed
  qed
qed


lemma unchangedFor_handleFile:
  "j \<noteq> idCounter s + 1 \<Longrightarrow> unchangedFor j s (handleFile type f s)"
  by (simp add: unchangedFor_def handleFile_def processNextChunk_def setTask_def updObj_def Let_def)

lemma taskOk_handleFile_new:
  assumes "taskOk s (idCounter s + 1)"
  shows "taskOk (handleFile type f s) (idCounter s + 1)"
proof -
  have none: "tasks s (Suc (idCounter s)) = None"
    using assms by (cases "tasks s (Suc (idCounter s))") (simp_all add: taskOk_def)
  with assms have "putEvents (Suc (idCounter s)) (trace s) = []" by (simp add: taskOk_def)
  then show ?thesis
    by (simp add: inv_defs handleFile_def processNextChunk_def setTask_def updObj_def Let_def)
qed

lemma inv_handleFile: "runInv s \<Longrightarrow> runInv (handleFile type f s)"
  unfolding runInv_def
proof
  fix i
  assume a: "\<forall>i. taskOk s i"
  show "taskOk (handleFile type f s) i"
  proof (cases "i = idCounter s + 1")
    case True
    with a taskOk_handleFile_new [of s type f] show ?thesis by simp
  next
    case False
    with a show ?thesis by (blast intro: taskOk_unchanged unchangedFor_handleFile)
  qed
qed

lemma inv_handleFiles: "runInv s \<Longrightarrow> runInv (handleFiles files type s)"
  by (induction files arbitrary: s) (simp_all add: handleFiles_def inv_handleFile)

lemma inv_saveSettled:
  assumes "runInv s"
  shows "runInv (saveSettled i ev s)"
proof -
  have "taskOk (saveSettled i ev s) j" for j
    using assms taskOk_saveSettled_same [of s i ev]
      taskOk_unchanged [OF _ unchangedFor_saveSettled, of s j i ev]
    by (cases "j = i") (simp_all add: runInv_def)
  then show ?thesis by (simp add: runInv_def)
qed

lemma inv_step: "runInv s \<Longrightarrow> runInv (step a s)"
proof (cases a)
  case (HandleFiles files type)
  assume "runInv s"
  then show ?thesis by (simp add: HandleFiles inv_handleFiles)
next
  case (TimerFired i)
  assume "runInv s"
  then have "taskOk (timerFired i s) j" for j
    using taskOk_timerFired_same [of s i]
      taskOk_unchanged [OF _ unchangedFor_timerFired, of s j i]
    by (cases "j = i") (simp_all add: runInv_def)
  then show ?thesis by (simp add: TimerFired runInv_def)
next
  case (ReadSettled i ok)
  assume "runInv s"
  then have "taskOk (readSettled i ok s) j" for j
    using taskOk_readSettled_same [of s i ok]
      taskOk_unchanged [OF _ unchangedFor_readSettled, of s j i ok]
    by (cases "j = i") (simp_all add: runInv_def)
  then show ?thesis by (simp add: ReadSettled runInv_def)
next
  case (SaveSettled i txOk)
  assume "runInv s"
  then show ?thesis by (simp add: SaveSettled inv_saveSettled)
next
  case (SaveAborted i)
  assume "runInv s"
  then show ?thesis by (simp add: SaveAborted inv_saveSettled)
next
  case (RemovePreview i txOk)
  assume "runInv s"
  then show ?thesis
    using taskOk_unchanged [OF _ unchangedFor_removePreview]
    by (simp add: RemovePreview runInv_def)
next
  case (RemoveAll type)
  assume "runInv s"
  then show ?thesis
    using taskOk_unchanged [OF _ unchangedFor_removeAll]
    by (simp add: RemoveAll runInv_def)
next
  case (CleanupSettled txOk)
  assume "runInv s"
  then show ?thesis
    using taskOk_unchanged [OF _ unchangedFor_cleanupSettled]
    by (simp add: CleanupSettled runInv_def)
next
  case (UploadAll type clock readOk)
  assume "runInv s"
  then show ?thesis
    using taskOk_unchanged [OF _ unchangedFor_uploadAll]
    by (simp add: UploadAll runInv_def)
next
  case (PreviewLoaded i)
  assume "runInv s"
  then show ?thesis by (simp add: PreviewLoaded)
qed

lemma inv_init: "runInv (init supported existing)"
  by (simp add: runInv_def taskOk_def init_def putEvents_def)

lemma inv_run: "runInv s \<Longrightarrow> runInv (run as s)"
  by (induction as arbitrary: s) (simp_all add: inv_step)

lemma run_append: "run (as @ bs) s = run bs (run as s)"
  by (induction as arbitrary: s) simp_all

section \<open>Chunks and their order\<close>







section \<open>Evaluating runs\<close>

lemma percentOf_1_2: "percentOf 1 2 = 50" by code_simp

lemma totalChunksOf_300000: "totalChunksOf 300000 = 2"
  by (simp add: totalChunksOf_exact chunkSize_def)

lemmas run_defs = handleFiles_def handleFile_def processNextChunk_def timerFired_def
  readSettled_def saveSettled_def saveChunk_def catchError_def setTask_def updObj_def emit_def
  init_def openDB_def put_def slice_def Let_def

lemma photoRun_state:
  "run photoRun (init True None) =
     \<lparr>images = [1], videos = [], idCounter = 1, urlCounter = 1,
      heap = [1 \<mapsto> \<lparr>pid = 1, fileName = ''photo.png'', psize = 300000, url = Some 0,
                      objectUrl = Some 0, loading = False, progress = 100,
                      totalChunks = Some 2\<rparr>],
      dbPromise = Inr (),
      chunks = Some \<lparr>indexNames = [],
        rows = [\<lparr>fileId = 1, chunkIndex = 0, chunkTotal = 2, data = replicate 262144 1\<rparr>,
                \<lparr>fileId = 1, chunkIndex = 1, chunkTotal = 2, data = replicate 37856 2\<rparr>]\<rparr>,
      tasks = [1 \<mapsto> \<lparr>tfile = photo, tTotalChunks = 2, currentChunk = 2, phase = Finished\<rparr>],
      cleanups = [], localStorage = Map.empty,
      trace = [SaveChunkCalled \<lparr>fileId = 1, chunkIndex = 0, chunkTotal = 2,
                                 data = replicate 262144 1\<rparr>,
               SaveChunkResolved 1 0,
               SaveChunkCalled \<lparr>fileId = 1, chunkIndex = 1, chunkTotal = 2,
                                 data = replicate 37856 2\<rparr>,
               SaveChunkResolved 1 1]\<rparr>"
  by (simp add: photoRun_def photo_def run_defs totalChunksOf_300000 percentOf_1_2
      percentOf_full chunkSize_def numeral_2_eq_2)

section \<open>Rounds that succeed\<close>

lemma handleFile_task:
  "tasks (handleFile type f s) (Suc (idCounter s))
     = Some (taskAfter f (totalChunksOf (length (bytes f))) 0)"
  by (simp add: handleFile_def processNextChunk_def setTask_def updObj_def taskAfter_def Let_def)

lemma handleFile_db:
  "dbPromise (handleFile type f s) = dbPromise s" "chunks (handleFile type f s) = chunks s"
  by (simp_all add: handleFile_def processNextChunk_def setTask_def updObj_def Let_def)

lemma run_commit:
  assumes "tasks s i = Some (taskAfter f n c)" and "c < n"
    and "dbPromise s = Inr ()" and "chunks s = Some st"
  shows "tasks (run [ReadSettled i True, SaveSettled i True] s) i
           = Some \<lparr>tfile = f, tTotalChunks = n, currentChunk = c + 1, phase = Scheduled\<rparr>"
    and "dbPromise (run [ReadSettled i True, SaveSettled i True] s) = Inr ()"
    and "chunks (run [ReadSettled i True, SaveSettled i True] s) \<noteq> None"
  using assms
  by (simp_all add: taskAfter_def readSettled_def saveSettled_def saveChunk_def setTask_def
      updObj_def emit_def Let_def)

lemma run_chunkRound:
  assumes "tasks s i = Some (taskAfter f n c)" and "c < n"
    and "dbPromise s = Inr ()" and "chunks s \<noteq> None"
  shows "tasks (run (chunkRound i) s) i = Some (taskAfter f n (c + 1))"
    and "dbPromise (run (chunkRound i) s) = Inr ()"
    and "chunks (run (chunkRound i) s) \<noteq> None"
proof -
  from assms(4) obtain st where st: "chunks s = Some st" by auto
  have r: "run (chunkRound i) s = timerFired i (run [ReadSettled i True, SaveSettled i True] s)"
    by (simp add: chunkRound_def)
  note c = run_commit [OF assms(1,2,3) st]
  show "tasks (run (chunkRound i) s) i = Some (taskAfter f n (c + 1))"
    unfolding r using c(1)
    by (simp add: timerFired_def processNextChunk_def setTask_def updObj_def taskAfter_def Let_def)
  show "dbPromise (run (chunkRound i) s) = Inr ()"
    unfolding r using c(1,2)
    by (simp add: timerFired_def processNextChunk_def setTask_def updObj_def Let_def)
  show "chunks (run (chunkRound i) s) \<noteq> None"
    unfolding r using c(1,3)
    by (simp add: timerFired_def processNextChunk_def setTask_def updObj_def Let_def)
qed

lemma run_chunkRounds:
  assumes "tasks s i = Some (taskAfter f n c)" and "c + k \<le> n"
    and "dbPromise s = Inr ()" and "chunks s \<noteq> None"
  shows "tasks (run (chunkRounds i k) s) i = Some (taskAfter f n (c + k))
    \<and> dbPromise (run (chunkRounds i k) s) = Inr ()
    \<and> chunks (run (chunkRounds i k) s) \<noteq> None"
  using assms
proof (induction k arbitrary: s c)
  case 0
  then show ?case by (simp add: chunkRounds_def)
next
  case (Suc k)
  from Suc.prems have lt: "c < n" by simp
  note r = run_chunkRound [OF Suc.prems(1) lt Suc.prems(3,4)]
  have "tasks (run (chunkRounds i k) (run (chunkRound i) s)) i = Some (taskAfter f n (c + 1 + k))
    \<and> dbPromise (run (chunkRounds i k) (run (chunkRound i) s)) = Inr ()
    \<and> chunks (run (chunkRounds i k) (run (chunkRound i) s)) \<noteq> None"
    using Suc.prems(2) by (intro Suc.IH r) simp
  then show ?case by (simp add: chunkRounds_def run_append)
qed


lemma look_reachable:
  assumes "tasks (run as (init supported existing)) i = Some t"
  shows "look progress (run as (init supported existing)) i = Some (progressOf t)"
    and "look loading (run as (init supported existing)) i
           = Some (phase t \<noteq> Finished \<and> phase t \<noteq> Failed)"
    and "look totalChunks (run as (init supported existing)) i = Some (Some (tTotalChunks t))"
proof -
  have "runInv (run as (init supported existing))" by (intro inv_run inv_init)
  with assms have "heapOk i t (heap (run as (init supported existing)) i)"
    by (simp add: runInv_def taskOk_def split: option.splits)
  then show "look progress (run as (init supported existing)) i = Some (progressOf t)"
    and "look loading (run as (init supported existing)) i
           = Some (phase t \<noteq> Finished \<and> phase t \<noteq> Failed)"
    and "look totalChunks (run as (init supported existing)) i = Some (Some (tTotalChunks t))"
    by (simp_all add: heapOk_def look_def split: option.splits)
qed

lemma saveSettled_commit_task:
  assumes "tasks s i = Some t" and "phase t = Saving c"
    and "fst (saveChunk Complete c s) = Some (Inr ())"
  shows "tasks (saveSettled i Complete s) i
           = Some (t\<lparr>currentChunk := currentChunk t + 1, phase := Scheduled\<rparr>)"
  using assms
  by (cases "saveChunk Complete c s")
     (simp add: saveSettled_def setTask_def updObj_def emit_def Let_def)

lemma timerFired_last_task:
  assumes "tasks s i = Some t" and "phase t = Scheduled" and "tTotalChunks t \<le> currentChunk t"
  shows "tasks (timerFired i s) i = Some (t\<lparr>phase := Finished\<rparr>)"
  using assms by (simp add: timerFired_def processNextChunk_def setTask_def updObj_def)

lemma totalChunksOf_clip: "totalChunksOf 10485760 = 40"
  by (simp add: totalChunksOf_exact chunkSize_def)

lemma percentOf_23_40: "percentOf 23 40 = 57" by code_simp

lemma exactPercent_22_40: "exactPercent 22 40 = 58" by code_simp

text \<open>Multiplying before dividing, the doubles give the exact rounding here.\<close>

lemma percent_multiplied_first: "Math_round (fl ((100 * 23) / 40)) = 58"
  by code_simp

lemma clipRun_task:
  "tasks (run clipRun (init True None)) 1
     = Some \<lparr>tfile = clip, tTotalChunks = 40, currentChunk = 23, phase = Scheduled\<rparr>"
proof -
  let ?s1 = "handleFile Video clip (init True None)"
  have t1: "tasks ?s1 1 = Some (taskAfter clip 40 0)"
    using handleFile_task [of Video clip "init True None"]
    by (simp add: init_def clip_def totalChunksOf_clip)
  have d1: "dbPromise ?s1 = Inr ()" "chunks ?s1 \<noteq> None"
    by (simp_all add: handleFile_db init_def openDB_def)
  have "tasks (run (chunkRounds 1 22) ?s1) 1 = Some (taskAfter clip 40 (0 + 22))
    \<and> dbPromise (run (chunkRounds 1 22) ?s1) = Inr ()
    \<and> chunks (run (chunkRounds 1 22) ?s1) \<noteq> None"
    using t1 d1 by (intro run_chunkRounds) simp_all
  then obtain st where t2: "tasks (run (chunkRounds 1 22) ?s1) 1 = Some (taskAfter clip 40 22)"
    and d2: "dbPromise (run (chunkRounds 1 22) ?s1) = Inr ()"
    and c2: "chunks (run (chunkRounds 1 22) ?s1) = Some st"
    by auto
  have "tasks (run [ReadSettled 1 True, SaveSettled 1 True] (run (chunkRounds 1 22) ?s1)) 1
      = Some \<lparr>tfile = clip, tTotalChunks = 40, currentChunk = 22 + 1, phase = Scheduled\<rparr>"
    using t2 _ d2 c2 by (rule run_commit) simp
  moreover have "run clipRun (init True None)
      = run [ReadSettled 1 True, SaveSettled 1 True] (run (chunkRounds 1 22) ?s1)"
    by (simp add: clipRun_def handleFiles_def run_append)
  ultimately show ?thesis by simp
qed

lemma percentOf_Suc_0_2: "percentOf (Suc 0) 2 = 50"
  using percentOf_1_2 by simp

lemma percentOf_Suc_Suc_0_2: "percentOf (Suc (Suc 0)) 2 = 100"
  using percentOf_full [of 2] by (simp add: numeral_2_eq_2)

lemma photoRun5_state:
  "run (take 5 photoRun) (init True None) =
     \<lparr>images = [1], videos = [], idCounter = 1, urlCounter = 1,
      heap = [1 \<mapsto> \<lparr>pid = 1, fileName = ''photo.png'', psize = 300000, url = Some 0,
                      objectUrl = Some 0, loading = True, progress = 50,
                      totalChunks = Some 2\<rparr>],
      dbPromise = Inr (),
      chunks = Some \<lparr>indexNames = [],
        rows = [\<lparr>fileId = 1, chunkIndex = 0, chunkTotal = 2, data = replicate 262144 1\<rparr>]\<rparr>,
      tasks = [1 \<mapsto> \<lparr>tfile = photo, tTotalChunks = 2, currentChunk = 1,
                       phase = Saving (chunkOf photo 1 2 1)\<rparr>],
      cleanups = [], localStorage = Map.empty,
      trace = [SaveChunkCalled \<lparr>fileId = 1, chunkIndex = 0, chunkTotal = 2,
                                 data = replicate 262144 1\<rparr>,
               SaveChunkResolved 1 0,
               SaveChunkCalled \<lparr>fileId = 1, chunkIndex = 1, chunkTotal = 2,
                                 data = replicate 37856 2\<rparr>]\<rparr>"
  by (simp add: photoRun_def photo_def run_defs totalChunksOf_300000 percentOf_Suc_0_2
      chunkSize_def chunkOf_def)

section \<open>How a closure moves\<close>

lemma unchangedFor_handleFiles:
  "i \<le> idCounter s \<Longrightarrow> unchangedFor i s (handleFiles fs type s)"
proof (induction fs arbitrary: s)
  case Nil
  then show ?case by (simp add: handleFiles_def unchangedFor_refl)
next
  case (Cons f fs)
  have "unchangedFor i s (handleFile type f s)"
    using Cons.prems by (intro unchangedFor_handleFile) simp
  moreover have "unchangedFor i (handleFile type f s) (handleFiles fs type (handleFile type f s))"
    using Cons.prems by (intro Cons.IH) (simp add: handleFile_idCounter)
  ultimately show ?case unfolding handleFiles_Cons by (rule unchangedFor_trans)
qed

lemma advanced_refl: "advanced t t"
  by (simp add: advanced_def)

lemma unchangedFor_step:
  assumes "runInv s" and "tasks s i = Some t"
    and "phase t = Finished \<or> phase t = Failed \<or> phase t = Stalled \<or> \<not> actsOn a i"
  shows "unchangedFor i s (step a s)"
proof -
  from assms(1,2) have le: "i \<le> idCounter s" by (simp add: runInv_def taskOk_def split: option.splits)
  have sv: "unchangedFor i s (saveSettled j ev s)"
    if "phase t = Finished \<or> phase t = Failed \<or> phase t = Stalled \<or> j \<noteq> i" for j ev
  proof (cases "j = i")
    case True
    with that assms(2) show ?thesis by (auto simp: saveSettled_def unchangedFor_refl)
  next
    case False
    moreover from assms(1) have "taskOk s j" by (simp add: runInv_def)
    ultimately show ?thesis by (simp add: unchangedFor_saveSettled)
  qed
  show ?thesis
  proof (cases a)
    case (HandleFiles files type)
    with le show ?thesis by (simp add: unchangedFor_handleFiles)
  next
    case (TimerFired j)
    show ?thesis
    proof (cases "j = i")
      case True
      with TimerFired assms show ?thesis by (auto simp: timerFired_def unchangedFor_refl)
    next
      case False
      then show ?thesis by (simp add: TimerFired unchangedFor_timerFired)
    qed
  next
    case (ReadSettled j ok)
    show ?thesis
    proof (cases "j = i")
      case True
      with ReadSettled assms show ?thesis by (auto simp: readSettled_def unchangedFor_refl)
    next
      case False
      then show ?thesis by (simp add: ReadSettled unchangedFor_readSettled)
    qed
  next
    case (SaveSettled j ok)
    with assms(3) show ?thesis by (auto intro: sv)
  next
    case (SaveAborted j)
    with assms(3) show ?thesis by (auto intro: sv)
  qed (simp_all add: unchangedFor_removePreview unchangedFor_removeAll unchangedFor_cleanupSettled
        unchangedFor_uploadAll unchangedFor_refl)
qed

lemma saveSettled_advanced:
  assumes "tasks s i = Some t"
  shows "\<exists>t'. tasks (saveSettled i ev s) i = Some t' \<and> advanced t t' \<and>
    (phase t' = Failed \<longrightarrow> currentChunk t' = currentChunk t)"
proof (cases "phase t")
  case (Saving c)
  obtain r s' where p: "saveChunk ev c s = (r, s')" by (cases "saveChunk ev c s")
  then have ts: "tasks s' = tasks s"
    by (auto simp: saveChunk_def split: sum.splits option.splits txEvent.splits)
  consider "r = None" | e where "r = Some (Inl e)" | u where "r = Some (Inr u)"
    by (rule outcome_cases [of r]) auto
  then show ?thesis
    using p ts assms Saving
    by cases
       (simp_all add: saveSettled_def catchError_def setTask_def updObj_def emit_def
          advanced_def Let_def)
qed (use assms in \<open>simp_all add: saveSettled_def advanced_def\<close>)

lemma step_advanced:
  assumes "runInv s" and "tasks s i = Some t"
  shows "\<exists>t'. tasks (step a s) i = Some t' \<and> advanced t t' \<and>
    (phase t' = Failed \<longrightarrow> currentChunk t' = currentChunk t)"
proof -
  have same: "\<exists>t'. tasks (step a s) i = Some t' \<and> advanced t t' \<and>
      (phase t' = Failed \<longrightarrow> currentChunk t' = currentChunk t)"
    if "unchangedFor i s (step a s)"
    using that assms(2) by (simp add: unchangedFor_def advanced_refl)
  show ?thesis
  proof (cases "actsOn a i")
    case False
    then show ?thesis by (intro same unchangedFor_step [OF assms]) simp
  next
    case True
    then consider "a = TimerFired i" | ok where "a = ReadSettled i ok"
      | ok where "a = SaveSettled i ok" | "a = SaveAborted i"
      by (cases a) auto
    then show ?thesis
    proof cases
      case 1
      with assms(2) show ?thesis
        by (simp add: timerFired_def processNextChunk_def setTask_def updObj_def advanced_def Let_def)
    next
      case 2
      with assms(2) show ?thesis
        by (cases "phase t")
           (simp_all add: readSettled_def catchError_def setTask_def updObj_def emit_def
              advanced_def Let_def)
    next
      case 3
      with saveSettled_advanced [OF assms(2)] show ?thesis by simp
    next
      case 4
      with saveSettled_advanced [OF assms(2)] show ?thesis by simp
    qed
  qed
qed


lemma progressOf_le_100:
  assumes "currentChunk t \<le> tTotalChunks t"
  shows "progressOf t \<le> 100"
  using assms percentOf_le_100 [of "currentChunk t" "tTotalChunks t"]
  by (simp add: progressOf_def)

lemma progressOf_advanced:
  assumes "advanced t t'" and "currentChunk t' \<le> tTotalChunks t'"
  shows "progressOf t \<le> progressOf t'"
proof (cases "phase t' = Finished")
  case True
  have "currentChunk t \<le> tTotalChunks t" using assms by (simp add: advanced_def)
  then have "progressOf t \<le> 100" by (rule progressOf_le_100)
  with True show ?thesis by (simp add: progressOf_def)
next
  case False
  with assms(1) have nf: "phase t \<noteq> Finished" by (auto simp: advanced_def)
  show ?thesis
  proof (cases "currentChunk t = 0")
    case True
    with nf False show ?thesis by (simp add: progressOf_def percentOf_nonneg)
  next
    case c: False
    with assms have "percentOf (currentChunk t) (tTotalChunks t)
        \<le> percentOf (currentChunk t') (tTotalChunks t)"
      by (intro percentOf_mono) (simp_all add: advanced_def)
    with assms(1) c nf False show ?thesis by (simp add: progressOf_def advanced_def)
  qed
qed

lemma advanced_trans: "advanced t t' \<Longrightarrow> advanced t' t'' \<Longrightarrow> advanced t t''"
  by (auto simp: advanced_def)

lemma run_advanced:
  assumes "runInv s" and "tasks s i = Some t"
  shows "\<exists>t'. tasks (run as s) i = Some t' \<and> advanced t t'"
  using assms
proof (induction as arbitrary: s t)
  case Nil
  then show ?case by (simp add: advanced_refl)
next
  case (Cons a as)
  from step_advanced [OF Cons.prems, of a]
  obtain t1 where t1: "tasks (step a s) i = Some t1" and a1: "advanced t t1" by auto
  from Cons.IH [OF inv_step [OF Cons.prems(1)] t1]
  obtain t2 where "tasks (run as (step a s)) i = Some t2" and "advanced t1 t2" by auto
  with a1 show ?case by (auto intro: advanced_trans)
qed

lemma task_of_object:
  assumes "runInv s" and "heap s i = Some p"
  obtains t where "tasks s i = Some t" and "progress p = progressOf t"
    and "loading p = (phase t \<noteq> Finished \<and> phase t \<noteq> Failed)"
    and "currentChunk t \<le> tTotalChunks t"
proof -
  from assms(1) have ok: "taskOk s i" by (simp add: runInv_def)
  with assms(2) obtain t where t: "tasks s i = Some t"
    by (cases "tasks s i") (simp_all add: taskOk_def)
  with ok assms(2) have "progress p = progressOf t"
    and "loading p = (phase t \<noteq> Finished \<and> phase t \<noteq> Failed)"
    and "currentChunk t \<le> tTotalChunks t"
    by (simp_all add: taskOk_def heapOk_def structOk_def)
  with t show ?thesis by (rule that)
qed

lemma photoRun4_state:
  "run (take 4 photoRun) (init True None) =
     \<lparr>images = [1], videos = [], idCounter = 1, urlCounter = 1,
      heap = [1 \<mapsto> \<lparr>pid = 1, fileName = ''photo.png'', psize = 300000, url = Some 0,
                      objectUrl = Some 0, loading = True, progress = 50,
                      totalChunks = Some 2\<rparr>],
      dbPromise = Inr (),
      chunks = Some \<lparr>indexNames = [],
        rows = [\<lparr>fileId = 1, chunkIndex = 0, chunkTotal = 2, data = replicate 262144 1\<rparr>]\<rparr>,
      tasks = [1 \<mapsto> \<lparr>tfile = photo, tTotalChunks = 2, currentChunk = 1,
                       phase = Reading 262144 300000\<rparr>],
      cleanups = [], localStorage = Map.empty,
      trace = [SaveChunkCalled \<lparr>fileId = 1, chunkIndex = 0, chunkTotal = 2,
                                 data = replicate 262144 1\<rparr>,
               SaveChunkResolved 1 0]\<rparr>"
  by (simp add: photoRun_def photo_def run_defs totalChunksOf_300000 percentOf_Suc_0_2
      chunkSize_def)

section \<open>A failing chunk\<close>

lemma run_unchanged_returned:
  assumes "runInv s" and "tasks s i = Some t"
    and "phase t = Finished \<or> phase t = Failed \<or> phase t = Stalled"
  shows "unchangedFor i s (run bs s)"
  using assms(1,2)
proof (induction bs arbitrary: s)
  case Nil
  then show ?case by (simp add: unchangedFor_refl)
next
  case (Cons a bs)
  have u: "unchangedFor i s (step a s)"
    using Cons.prems assms(3) by (intro unchangedFor_step) auto
  then have "tasks (step a s) i = Some t" using Cons.prems(2) by (simp add: unchangedFor_def)
  with Cons.prems(1) have "unchangedFor i (step a s) (run bs (step a s))"
    by (intro Cons.IH inv_step)
  with u show ?case by (auto intro: unchangedFor_trans)
qed

lemma readSettled_rejected:
  "tasks s i = Some t \<Longrightarrow> phase t = Reading x y \<Longrightarrow> readSettled i False s = catchError i t s"
  by (simp add: readSettled_def)

lemma saveSettled_rejected:
  assumes "tasks s i = Some t" and "phase t = Saving c"
    and "fst (saveChunk ev c s) = Some (Inl e)"
  shows "saveSettled i ev s = catchError i t s"
proof -
  obtain r s' where p: "saveChunk ev c s = (r, s')" by (cases "saveChunk ev c s")
  with assms(3) have "r = Some (Inl e)" by simp
  moreover from this p have "s' = s" by (auto dest: saveChunk_unsettled)
  ultimately show ?thesis using p assms(1,2) by (simp add: saveSettled_def)
qed

lemma catchError_fields:
  "tasks (catchError i t s) = (tasks s)(i \<mapsto> t\<lparr>phase := Failed\<rparr>)"
  "heap (catchError i t s) = (heap s)(i := map_option (\<lambda>p. p\<lparr>loading := False\<rparr>) (heap s i))"
  "dbPromise (catchError i t s) = dbPromise s" "chunks (catchError i t s) = chunks s"
  "trace (catchError i t s) = trace s" "idCounter (catchError i t s) = idCounter s"
  by (simp_all add: catchError_def setTask_def updObj_def)

lemma pipeline_step_local:
  assumes "tasks s' j = tasks s j" and "heap s' j = heap s j"
    and "dbPromise s' = dbPromise s" and "chunks s' = chunks s"
    and "actsOn b j"
  shows "tasks (step b s') j = tasks (step b s) j \<and> heap (step b s') j = heap (step b s) j"
proof -
  have t: "tasks (timerFired j s') j = tasks (timerFired j s) j
      \<and> heap (timerFired j s') j = heap (timerFired j s) j"
    using assms(1,2)
    by (simp add: timerFired_def processNextChunk_def setTask_def updObj_def Let_def
        split: option.splits)
  have r: "tasks (readSettled j ok s') j = tasks (readSettled j ok s) j
      \<and> heap (readSettled j ok s') j = heap (readSettled j ok s) j" for ok
    using assms(1,2)
    by (simp add: readSettled_def catchError_def setTask_def updObj_def emit_def Let_def
        split: option.splits phase.splits)
  have v: "tasks (saveSettled j ev s') j = tasks (saveSettled j ev s) j
      \<and> heap (saveSettled j ev s') j = heap (saveSettled j ev s) j" for ev
    using assms(1,2,3,4)
    by (simp add: saveSettled_def saveChunk_def catchError_def setTask_def updObj_def emit_def
        Let_def split: option.splits phase.splits sum.splits txEvent.splits)
  from assms(5) t r v show ?thesis by (cases b) simp_all
qed

lemma pairRun_state:
  "run pairRun (init True None) =
     \<lparr>images = [1, 2], videos = [], idCounter = 2, urlCounter = 2,
      heap = [1 \<mapsto> \<lparr>pid = 1, fileName = ''photo.png'', psize = 300000, url = Some 0,
                      objectUrl = Some 0, loading = True, progress = 0,
                      totalChunks = Some 2\<rparr>,
              2 \<mapsto> \<lparr>pid = 2, fileName = ''clip.mp4'', psize = 10485760, url = Some 1,
                      objectUrl = Some 1, loading = True, progress = 0,
                      totalChunks = Some 40\<rparr>],
      dbPromise = Inr (),
      chunks = Some \<lparr>indexNames = [], rows = []\<rparr>,
      tasks = [1 \<mapsto> \<lparr>tfile = photo, tTotalChunks = 2, currentChunk = 0,
                       phase = Reading 0 262144\<rparr>,
               2 \<mapsto> \<lparr>tfile = clip, tTotalChunks = 40, currentChunk = 0,
                       phase = Reading 0 262144\<rparr>],
      cleanups = [], localStorage = Map.empty, trace = []\<rparr>"
  by (simp add: pairRun_def photo_def clip_def run_defs totalChunksOf_300000 totalChunksOf_clip
      chunkSize_def numeral_2_eq_2)

lemma stalledRun_state:
  "run stalledRun (init True None) =
     \<lparr>images = [1], videos = [], idCounter = 1, urlCounter = 1,
      heap = [1 \<mapsto> \<lparr>pid = 1, fileName = ''photo.png'', psize = 300000, url = Some 0,
                      objectUrl = Some 0, loading = True, progress = 0,
                      totalChunks = Some 2\<rparr>],
      dbPromise = Inr (),
      chunks = Some \<lparr>indexNames = [], rows = []\<rparr>,
      tasks = [1 \<mapsto> \<lparr>tfile = photo, tTotalChunks = 2, currentChunk = 0, phase = Stalled\<rparr>],
      cleanups = [], localStorage = Map.empty,
      trace = [SaveChunkCalled \<lparr>fileId = 1, chunkIndex = 0, chunkTotal = 2,
                                 data = replicate 262144 1\<rparr>]\<rparr>"
  by (simp add: stalledRun_def photo_def run_defs totalChunksOf_300000 chunkSize_def)

text \<open>
  When the read of a chunk is rejected, or the promise of its put is rejected (the
  transaction has an error event, the store is missing or the database could not be
  opened), the \<open>catch\<close> block runs: \<open>loading\<close> of that record becomes false and its
  progress stays; in whatever follows no \<open>saveChunk\<close> is called for that file again;
  the closures and records of all other files, the database promise and the store
  are untouched, and the next step of any other file's pipeline does to that file
  what it would have done otherwise.
\<close>

lemma catch_is_local:
  assumes "tasks (run as (init supported existing)) i = Some t"
    and "(a = ReadSettled i False \<and> (\<exists>x y. phase t = Reading x y)) \<or>
         (\<exists>ok c e. a = SaveSettled i ok \<and> phase t = Saving c \<and>
            fst (saveChunk (if ok then Complete else Error) c (run as (init supported existing)))
              = Some (Inl e))"
  shows "look loading (step a (run as (init supported existing))) i = Some False
    \<and> look progress (step a (run as (init supported existing))) i
        = look progress (run as (init supported existing)) i
    \<and> (\<forall>bs. putEvents i (trace (run bs (step a (run as (init supported existing)))))
               = putEvents i (trace (run as (init supported existing)))
            \<and> look progress (run bs (step a (run as (init supported existing)))) i
               = look progress (run as (init supported existing)) i
            \<and> look loading (run bs (step a (run as (init supported existing)))) i = Some False)
    \<and> (\<forall>j. j \<noteq> i \<longrightarrow>
           tasks (step a (run as (init supported existing))) j
             = tasks (run as (init supported existing)) j
         \<and> heap (step a (run as (init supported existing))) j
             = heap (run as (init supported existing)) j)
    \<and> dbPromise (step a (run as (init supported existing)))
        = dbPromise (run as (init supported existing))
    \<and> chunks (step a (run as (init supported existing)))
        = chunks (run as (init supported existing))
    \<and> (\<forall>j b. j \<noteq> i \<and> actsOn b j \<longrightarrow>
           tasks (step b (step a (run as (init supported existing)))) j
             = tasks (step b (run as (init supported existing))) j
         \<and> heap (step b (step a (run as (init supported existing)))) j
             = heap (step b (run as (init supported existing))) j)"
proof -
  define s where "s = run as (init supported existing)"
  define s' where "s' = step a s"
  have inv: "runInv s" unfolding s_def by (intro inv_run inv_init)
  have t: "tasks s i = Some t" using assms(1) by (simp add: s_def)
  have s': "s' = catchError i t s"
    unfolding s'_def using t assms(2) [folded s_def]
    by (auto simp: readSettled_rejected saveSettled_rejected)
  from inv have "taskOk s i" by (simp add: runInv_def)
  with t obtain p where p: "heap s i = Some p"
    by (cases "heap s i") (simp_all add: taskOk_def heapOk_def)
  have l: "look loading s' i = Some False" and q: "look progress s' i = look progress s i"
    using p by (simp_all add: s' catchError_fields look_def)
  have later: "putEvents i (trace (run bs s')) = putEvents i (trace s)
      \<and> look progress (run bs s') i = look progress s i
      \<and> look loading (run bs s') i = Some False" for bs
  proof -
    have "runInv s'" unfolding s'_def using inv by (rule inv_step)
    moreover have "tasks s' i = Some (t\<lparr>phase := Failed\<rparr>)" by (simp add: s' catchError_fields)
    ultimately have "unchangedFor i s' (run bs s')"
      by (rule run_unchanged_returned) simp
    then have "putEvents i (trace (run bs s')) = putEvents i (trace s')"
      and "heap (run bs s') i = heap s' i"
      by (simp_all add: unchangedFor_def)
    with l q show ?thesis by (simp add: look_def s' catchError_fields)
  qed
  have others: "tasks s' j = tasks s j \<and> heap s' j = heap s j" if "j \<noteq> i" for j
    using that by (simp add: s' catchError_fields)
  have db: "dbPromise s' = dbPromise s" "chunks s' = chunks s"
    by (simp_all add: s' catchError_fields)
  have next_step: "tasks (step b s') j = tasks (step b s) j \<and> heap (step b s') j = heap (step b s) j"
    if "j \<noteq> i" and "actsOn b j" for j b
    using others [OF that(1)] db that(2) by (intro pipeline_step_local) simp_all
  from l q later others db next_step show ?thesis
    unfolding s'_def s_def by blast
qed

section \<open>Files without bytes\<close>

lemma totalChunksOf_0: "totalChunksOf 0 = 0"
  by (simp add: totalChunksOf_def fl_def Math_ceil_def)

lemma handleFiles_task_nth:
  "k < length files \<Longrightarrow>
   \<exists>t. tasks (handleFiles files type s) (Suc (idCounter s + k)) = Some t \<and> tfile t = files ! k"
proof (induction files arbitrary: s k)
  case Nil
  then show ?case by simp
next
  case (Cons f fs)
  show ?case
  proof (cases k)
    case 0
    have "unchangedFor (Suc (idCounter s)) (handleFile type f s)
        (handleFiles fs type (handleFile type f s))"
      by (intro unchangedFor_handleFiles) (simp add: handleFile_idCounter)
    then have "tasks (handleFiles fs type (handleFile type f s)) (Suc (idCounter s))
        = tasks (handleFile type f s) (Suc (idCounter s))"
      by (simp add: unchangedFor_def)
    then show ?thesis using 0 by (simp add: handleFiles_Cons handleFile_task taskAfter_def)
  next
    case (Suc k')
    with Cons.prems have "k' < length fs" by simp
    from Cons.IH [OF this, of "handleFile type f s"]
    show ?thesis using Suc by (simp add: handleFiles_Cons handleFile_idCounter)
  qed
qed

lemma empty_task:
  assumes "runInv s" and "tasks s i = Some t" and "bytes (tfile t) = []"
  shows "phase t = Finished" and "tTotalChunks t = 0" and "putEvents i (trace s) = []"
    and "look loading s i = Some False" and "look progress s i = Some 100"
    and "look totalChunks s i = Some (Some 0)"
proof -
  from assms(1) have "taskOk s i" by (simp add: runInv_def)
  with assms(2) have ok: "structOk i t" "tracedOk i t (trace s)" "heapOk i t (heap s i)"
    by (simp_all add: taskOk_def)
  from ok(1) assms(3) have n: "tTotalChunks t = 0" and c: "currentChunk t = 0"
    by (simp_all add: structOk_def totalChunksOf_0)
  from ok(1) n c show f: "phase t = Finished"
    by (cases "phase t") (simp_all add: structOk_def)
  show "tTotalChunks t = 0" by (rule n)
  from ok(2) f c show "putEvents i (trace s) = []" by (simp add: tracedOk_def)
  from ok(3) f n show "look loading s i = Some False" and "look progress s i = Some 100"
    and "look totalChunks s i = Some (Some 0)"
    by (simp_all add: heapOk_def look_def progressOf_def split: option.splits)
qed

section \<open>The database schema\<close>

lemma schemaOf_update [simp]:
  "schemaOf (s\<lparr>heap := h\<rparr>) = schemaOf s" "schemaOf (s\<lparr>tasks := ts\<rparr>) = schemaOf s"
  "schemaOf (s\<lparr>trace := tr\<rparr>) = schemaOf s" "schemaOf (s\<lparr>images := xs\<rparr>) = schemaOf s"
  "schemaOf (s\<lparr>videos := xs\<rparr>) = schemaOf s" "schemaOf (s\<lparr>cleanups := xs\<rparr>) = schemaOf s"
  "schemaOf (s\<lparr>idCounter := n\<rparr>) = schemaOf s" "schemaOf (s\<lparr>urlCounter := n\<rparr>) = schemaOf s"
  "schemaOf (s\<lparr>localStorage := ls\<rparr>) = schemaOf s"
  by (simp_all add: schemaOf_def)

lemma schemaOf_rows [simp]:
  "chunks s = Some store \<Longrightarrow> schemaOf (s\<lparr>chunks := Some (store\<lparr>rows := rs\<rparr>)\<rparr>) = schemaOf s"
  by (simp add: schemaOf_def)

lemma schemaOf_saveChunk: "schemaOf (snd (saveChunk ev c s)) = schemaOf s"
  by (simp add: saveChunk_def split: sum.splits option.splits txEvent.splits)

lemma schemaOf_saveSettled: "schemaOf (saveSettled i ev s) = schemaOf s"
proof (cases "tasks s i")
  case (Some t)
  show ?thesis
  proof (cases "phase t")
    case (Saving c)
    obtain r s' where p: "saveChunk ev c s = (r, s')" by (cases "saveChunk ev c s")
    then have "schemaOf s' = schemaOf s" using schemaOf_saveChunk [of ev c s] by simp
    with p Some Saving show ?thesis
      by (cases r rule: outcome_cases)
         (simp_all add: saveSettled_def catchError_def setTask_def updObj_def emit_def Let_def)
  qed (simp_all add: Some saveSettled_def)
qed (simp add: saveSettled_def)

lemma schemaOf_clearChunksByFileId: "schemaOf (snd (clearChunksByFileId txOk i s)) = schemaOf s"
  by (simp add: clearChunksByFileId_def emit_def split: sum.splits option.splits)

lemma schemaOf_revokeOf: "schemaOf (revokeOf i s) = schemaOf s"
  by (simp add: revokeOf_def emit_def split: option.splits)

lemma schemaOf_processNextChunk: "schemaOf (processNextChunk i s) = schemaOf s"
  by (simp add: processNextChunk_def setTask_def updObj_def Let_def split: option.splits)

lemma schemaOf_handleFile: "schemaOf (handleFile type f s) = schemaOf s"
  by (simp add: handleFile_def schemaOf_processNextChunk setTask_def Let_def)

lemma schemaOf_handleFiles: "schemaOf (handleFiles fs type s) = schemaOf s"
  by (induction fs arbitrary: s) (simp_all add: handleFiles_def schemaOf_handleFile)

lemma schemaOf_verifyChunks: "schemaOf (snd (verifyChunks readOk k fs s)) = schemaOf s"
  by (induction fs arbitrary: k s) (simp_all add: emit_def Let_def split: option.splits)

lemma schemaOf_step: "schemaOf (step a s) = schemaOf s"
proof (cases a)
  case (HandleFiles files type)
  then show ?thesis by (simp add: schemaOf_handleFiles)
next
  case (TimerFired i)
  then show ?thesis by (simp add: timerFired_def schemaOf_processNextChunk split: option.splits)
next
  case (ReadSettled i ok)
  then show ?thesis
    by (simp add: readSettled_def catchError_def setTask_def updObj_def emit_def Let_def
        split: option.splits phase.splits)
next
  case (SaveSettled i txOk)
  then show ?thesis by (simp add: schemaOf_saveSettled)
next
  case (SaveAborted i)
  then show ?thesis by (simp add: schemaOf_saveSettled)
next
  case (RemovePreview i txOk)
  obtain r s' where p: "clearChunksByFileId txOk i s = (r, s')"
    by (cases "clearChunksByFileId txOk i s")
  then have "schemaOf s' = schemaOf s" using schemaOf_clearChunksByFileId [of txOk i s] by simp
  with p RemovePreview show ?thesis
    using schemaOf_revokeOf [of i s']
    by (cases r) (simp_all add: removePreview_def emit_def)
next
  case (RemoveAll type)
  then show ?thesis by (simp add: removeAll_def Let_def)
next
  case (CleanupSettled txOk)
  show ?thesis
  proof (cases "cleanups s")
    case Nil
    with CleanupSettled show ?thesis by (simp add: cleanupSettled_def)
  next
    case (Cons i rest)
    obtain r s' where p: "clearChunksByFileId txOk i (s\<lparr>cleanups := rest\<rparr>) = (r, s')"
      by (cases "clearChunksByFileId txOk i (s\<lparr>cleanups := rest\<rparr>)")
    then have "schemaOf s' = schemaOf s"
      using schemaOf_clearChunksByFileId [of txOk i "s\<lparr>cleanups := rest\<rparr>"] by simp
    with p Cons CleanupSettled show ?thesis
      by (cases r) (simp_all add: cleanupSettled_def schemaOf_revokeOf)
  qed
next
  case (UploadAll type clock readOk)
  let ?items = "List.map_filter (heap s) (itemsOf type s)"
  let ?s1 = "emit (ManifestWritten type)
     (s\<lparr>localStorage := (localStorage s)(storageKey type \<mapsto> manifestOf clock ?items)\<rparr>)"
  have s1: "schemaOf ?s1 = schemaOf s" by (simp add: emit_def)
  obtain r s2 where v: "verifyChunks readOk 0 ?items ?s1 = (r, s2)"
    by (cases "verifyChunks readOk 0 ?items ?s1")
  then have "schemaOf s2 = schemaOf s"
    using schemaOf_verifyChunks [of readOk 0 ?items ?s1] s1 by simp
  with v s1 UploadAll show ?thesis
    by (cases r) (simp_all add: uploadAll_def emit_def Let_def split: sum.splits)
next
  case (PreviewLoaded i)
  then show ?thesis by simp
qed

lemma schemaOf_run: "schemaOf (run as s) = schemaOf s"
  by (induction as arbitrary: s) (simp_all add: schemaOf_step)

lemma clearChunksByFileId_own_database:
  "clearChunksByFileId txOk i (run as (init True None))
     = (Inl NotFoundError, run as (init True None))"
proof -
  have "schemaOf (run as (init True None)) = (Inr (), Some [])"
    by (simp add: schemaOf_run) (simp add: schemaOf_def init_def openDB_def)
  then show ?thesis
    by (auto simp: schemaOf_def clearChunksByFileId_def split: sum.splits option.splits)
qed

section \<open>Clearing chunks\<close>

lemma clearChunksByFileId_rejected:
  "fst (clearChunksByFileId txOk i s) = Inl e \<Longrightarrow> clearChunksByFileId txOk i s = (Inl e, s)"
  by (auto simp: clearChunksByFileId_def split: sum.splits option.splits if_splits)

lemma clearChunksByFileId_resolved:
  assumes "fst (clearChunksByFileId txOk i s) = Inr ()"
  shows "\<exists>store. chunks s = Some store \<and> clearChunksByFileId txOk i s
    = (Inr (), emit (ChunksCleared i)
         (s\<lparr>chunks := Some (store\<lparr>rows := filter (\<lambda>r. fileId r \<noteq> i) (rows store)\<rparr>)\<rparr>))"
  using assms
  by (auto simp: clearChunksByFileId_def split: sum.splits option.splits if_splits)

lemma photoRun_indexed_state:
  "run photoRun (init True indexedDb) =
     \<lparr>images = [1], videos = [], idCounter = 1, urlCounter = 1,
      heap = [1 \<mapsto> \<lparr>pid = 1, fileName = ''photo.png'', psize = 300000, url = Some 0,
                      objectUrl = Some 0, loading = False, progress = 100,
                      totalChunks = Some 2\<rparr>],
      dbPromise = Inr (),
      chunks = Some \<lparr>indexNames = [''fileId''],
        rows = [\<lparr>fileId = 1, chunkIndex = 0, chunkTotal = 2, data = replicate 262144 1\<rparr>,
                \<lparr>fileId = 1, chunkIndex = 1, chunkTotal = 2, data = replicate 37856 2\<rparr>]\<rparr>,
      tasks = [1 \<mapsto> \<lparr>tfile = photo, tTotalChunks = 2, currentChunk = 2, phase = Finished\<rparr>],
      cleanups = [], localStorage = Map.empty,
      trace = [SaveChunkCalled \<lparr>fileId = 1, chunkIndex = 0, chunkTotal = 2,
                                 data = replicate 262144 1\<rparr>,
               SaveChunkResolved 1 0,
               SaveChunkCalled \<lparr>fileId = 1, chunkIndex = 1, chunkTotal = 2,
                                 data = replicate 37856 2\<rparr>,
               SaveChunkResolved 1 1]\<rparr>"
  by (simp add: photoRun_def photo_def indexedDb_def run_defs totalChunksOf_300000 percentOf_1_2
      percentOf_full chunkSize_def numeral_2_eq_2)

section \<open>The progress after a commit\<close>

text \<open>
  In every run, when the transaction of the put of chunk \<open>i\<close> completes, the progress
  of the record becomes \<open>percentOf (i + 1) totalChunks\<close>, the source's expression in
  doubles, and \<open>loading\<close> is still true; after the last chunk that value is 100, and
  the call of \<open>processNextChunk\<close> that the timer makes next sets \<open>loading = false\<close>.
\<close>

lemma progress_after_commit:
  assumes "tasks (run as (init supported existing)) i = Some t"
    and "phase t = Saving c"
    and "fst (saveChunk Complete c (run as (init supported existing))) = Some (Inr ())"
  shows "chunkIndex c = currentChunk t \<and> currentChunk t < tTotalChunks t
    \<and> look progress (run (as @ [SaveSettled i True]) (init supported existing)) i
        = Some (percentOf (chunkIndex c + 1) (tTotalChunks t))
    \<and> look loading (run (as @ [SaveSettled i True]) (init supported existing)) i = Some True
    \<and> (chunkIndex c + 1 = tTotalChunks t \<longrightarrow>
         look progress (run (as @ [SaveSettled i True]) (init supported existing)) i = Some 100
       \<and> look loading (run (as @ [SaveSettled i True, TimerFired i]) (init supported existing)) i
           = Some False
       \<and> look progress (run (as @ [SaveSettled i True, TimerFired i]) (init supported existing)) i
           = Some 100)"
proof -
  define s where "s = run as (init supported existing)"
  let ?t1 = "t\<lparr>currentChunk := currentChunk t + 1, phase := Scheduled\<rparr>"
  have "runInv s" unfolding s_def by (intro inv_run inv_init)
  then have "taskOk s i" by (simp add: runInv_def)
  with assms(1,2) have c: "chunkIndex c = currentChunk t" and lt: "currentChunk t < tTotalChunks t"
    by (simp_all add: taskOk_def structOk_def s_def)
  have t1: "tasks (run (as @ [SaveSettled i True]) (init supported existing)) i = Some ?t1"
    using saveSettled_commit_task [OF assms] by (simp add: run_append)
  note l1 = look_reachable [OF t1]
  have p1: "look progress (run (as @ [SaveSettled i True]) (init supported existing)) i
      = Some (percentOf (chunkIndex c + 1) (tTotalChunks t))"
    using l1(1) by (simp add: progressOf_def c)
  have p2: "look loading (run (as @ [SaveSettled i True]) (init supported existing)) i = Some True"
    using l1(2) by simp
  have p3: "look progress (run (as @ [SaveSettled i True]) (init supported existing)) i = Some 100
       \<and> look loading (run (as @ [SaveSettled i True, TimerFired i]) (init supported existing)) i
           = Some False
       \<and> look progress (run (as @ [SaveSettled i True, TimerFired i]) (init supported existing)) i
           = Some 100"
    if last: "chunkIndex c + 1 = tTotalChunks t"
  proof -
    have "tasks (timerFired i (run (as @ [SaveSettled i True]) (init supported existing))) i
        = Some (?t1\<lparr>phase := Finished\<rparr>)"
      using t1 by (rule timerFired_last_task) (simp_all add: last [symmetric] c)
    moreover have "run (as @ [SaveSettled i True, TimerFired i]) (init supported existing)
        = timerFired i (run (as @ [SaveSettled i True]) (init supported existing))"
      by (simp add: run_append)
    ultimately have t2: "tasks (run (as @ [SaveSettled i True, TimerFired i])
        (init supported existing)) i = Some (?t1\<lparr>phase := Finished\<rparr>)"
      by simp
    note l2 = look_reachable [OF t2]
    from p1 last lt have "look progress (run (as @ [SaveSettled i True]) (init supported existing)) i
        = Some 100"
      by (simp add: percentOf_full)
    with l2 show ?thesis by (simp add: progressOf_def)
  qed
  from c lt p1 p2 p3 show ?thesis by blast
qed

lemma progress_after_commit_photo:
  "tasks (run (take 5 photoRun) (init True None)) 1
     = Some \<lparr>tfile = photo, tTotalChunks = 2, currentChunk = 1,
              phase = Saving (chunkOf photo 1 2 1)\<rparr>
   \<and> fst (saveChunk Complete (chunkOf photo 1 2 1) (run (take 5 photoRun) (init True None)))
       = Some (Inr ())
   \<and> look progress (run (take 5 photoRun @ [SaveSettled 1 True]) (init True None)) 1 = Some 100
   \<and> look loading (run (take 5 photoRun @ [SaveSettled 1 True]) (init True None)) 1 = Some True
   \<and> look loading (run (take 5 photoRun @ [SaveSettled 1 True, TimerFired 1]) (init True None)) 1
       = Some False
   \<and> look progress (run (take 5 photoRun @ [SaveSettled 1 True, TimerFired 1]) (init True None)) 1
       = Some 100"
proof -
  let ?t = "\<lparr>tfile = photo, tTotalChunks = 2, currentChunk = 1,
             phase = Saving (chunkOf photo 1 2 1)\<rparr>"
  have t: "tasks (run (take 5 photoRun) (init True None)) 1 = Some ?t"
    by (simp add: photoRun5_state)
  have ph: "phase ?t = Saving (chunkOf photo 1 2 1)" by simp
  have sv: "fst (saveChunk Complete (chunkOf photo 1 2 1) (run (take 5 photoRun) (init True None)))
      = Some (Inr ())"
    by (simp add: photoRun5_state saveChunk_def)
  from progress_after_commit [OF t ph sv] t sv show ?thesis
    by (simp add: percentOf_Suc_Suc_0_2)
qed

section \<open>Cleaning up on the database that \<open>openDB\<close> creates\<close>

text \<open>
  On a database without the index every call of \<open>clearChunksByFileId\<close> is rejected, and
  both \<open>removePreview\<close> and the callbacks of \<open>removeAll\<close> stop there: in no run is a chunk
  deleted or a URL revoked.
\<close>

lemma cleanupEvents_update [simp]:
  "cleanupEvents (s\<lparr>heap := h\<rparr>) = cleanupEvents s" "cleanupEvents (s\<lparr>tasks := ts\<rparr>) = cleanupEvents s"
  "cleanupEvents (s\<lparr>chunks := c\<rparr>) = cleanupEvents s" "cleanupEvents (s\<lparr>images := xs\<rparr>) = cleanupEvents s"
  "cleanupEvents (s\<lparr>videos := xs\<rparr>) = cleanupEvents s" "cleanupEvents (s\<lparr>cleanups := xs\<rparr>) = cleanupEvents s"
  "cleanupEvents (s\<lparr>idCounter := n\<rparr>) = cleanupEvents s" "cleanupEvents (s\<lparr>urlCounter := n\<rparr>) = cleanupEvents s"
  "cleanupEvents (s\<lparr>localStorage := ls\<rparr>) = cleanupEvents s"
  "\<not> isCleanup e \<Longrightarrow> cleanupEvents (emit e s) = cleanupEvents s"
  by (simp_all add: cleanupEvents_def emit_def)

lemma cleanupEvents_processNextChunk: "cleanupEvents (processNextChunk i s) = cleanupEvents s"
  by (simp add: processNextChunk_def setTask_def updObj_def Let_def split: option.splits)

lemma cleanupEvents_handleFile: "cleanupEvents (handleFile type f s) = cleanupEvents s"
  by (simp add: handleFile_def cleanupEvents_processNextChunk setTask_def Let_def)

lemma cleanupEvents_handleFiles: "cleanupEvents (handleFiles fs type s) = cleanupEvents s"
  by (induction fs arbitrary: s) (simp_all add: handleFiles_def cleanupEvents_handleFile)

lemma cleanupEvents_verifyChunks: "cleanupEvents (snd (verifyChunks readOk k fs s)) = cleanupEvents s"
  by (induction fs arbitrary: k s) (simp_all add: Let_def split: option.splits)

lemma cleanupEvents_saveSettled: "cleanupEvents (saveSettled i ev s) = cleanupEvents s"
  by (simp add: saveSettled_def saveChunk_def catchError_def setTask_def updObj_def Let_def
        split: option.splits phase.splits sum.splits txEvent.splits)

lemma clearChunksByFileId_no_index:
  "schemaOf s = (Inr (), Some []) \<Longrightarrow> clearChunksByFileId txOk i s = (Inl NotFoundError, s)"
  by (auto simp: schemaOf_def clearChunksByFileId_def split: sum.splits option.splits)

lemma cleanupEvents_step:
  assumes "schemaOf s = (Inr (), Some [])"
  shows "cleanupEvents (step a s) = cleanupEvents s"
proof (cases a)
  case (HandleFiles files type)
  then show ?thesis by (simp add: cleanupEvents_handleFiles)
next
  case (TimerFired i)
  then show ?thesis by (simp add: timerFired_def cleanupEvents_processNextChunk split: option.splits)
next
  case (ReadSettled i ok)
  then show ?thesis
    by (simp add: readSettled_def catchError_def setTask_def updObj_def Let_def
        split: option.splits phase.splits)
next
  case (SaveSettled i txOk)
  then show ?thesis by (simp add: cleanupEvents_saveSettled)
next
  case (SaveAborted i)
  then show ?thesis by (simp add: cleanupEvents_saveSettled)
next
  case (RemovePreview i txOk)
  with assms show ?thesis by (simp add: removePreview_def clearChunksByFileId_no_index)
next
  case (RemoveAll type)
  then show ?thesis by (simp add: removeAll_def Let_def)
next
  case (CleanupSettled txOk)
  have "schemaOf (s\<lparr>cleanups := rest\<rparr>) = (Inr (), Some [])" for rest
    using assms by simp
  with CleanupSettled show ?thesis
    by (simp add: cleanupSettled_def clearChunksByFileId_no_index split: list.splits)
next
  case (UploadAll type clock readOk)
  let ?items = "List.map_filter (heap s) (itemsOf type s)"
  let ?s1 = "emit (ManifestWritten type)
     (s\<lparr>localStorage := (localStorage s)(storageKey type \<mapsto> manifestOf clock ?items)\<rparr>)"
  have s1: "cleanupEvents ?s1 = cleanupEvents s" by simp
  obtain r s2 where v: "verifyChunks readOk 0 ?items ?s1 = (r, s2)"
    by (cases "verifyChunks readOk 0 ?items ?s1")
  then have "cleanupEvents s2 = cleanupEvents s"
    using cleanupEvents_verifyChunks [of readOk 0 ?items ?s1] s1 by simp
  with v s1 UploadAll show ?thesis
    by (cases r) (simp_all add: uploadAll_def Let_def split: sum.splits)
next
  case (PreviewLoaded i)
  then show ?thesis by simp
qed

lemma cleanupEvents_run:
  "schemaOf s = (Inr (), Some []) \<Longrightarrow> cleanupEvents (run as s) = cleanupEvents s"
proof (induction as arbitrary: s)
  case Nil
  then show ?case by simp
next
  case (Cons a as)
  then show ?case by (simp add: schemaOf_step cleanupEvents_step)
qed

lemma cleanupEvents_own_database: "cleanupEvents (run as (init True None)) = []"
proof -
  have "schemaOf (init True None) = (Inr (), Some [])"
    by (simp add: schemaOf_def init_def openDB_def)
  then have "cleanupEvents (run as (init True None)) = cleanupEvents (init True None)"
    by (rule cleanupEvents_run)
  then show ?thesis by (simp add: cleanupEvents_def init_def)
qed

lemma removeAll_fields:
  "images (removeAll Image s) = []" "videos (removeAll Image s) = videos s"
  "images (removeAll Video s) = images s" "videos (removeAll Video s) = []"
  "heap (removeAll type s) = heap s" "tasks (removeAll type s) = tasks s"
  "cleanups (removeAll type s) = cleanups s @ itemsOf type s"
  by (simp_all add: removeAll_def Let_def)

section \<open>The export\<close>

















section \<open>The claims\<close>

text \<open>
  C1. For every file of byte size \<open>S\<close> handed to \<open>handleFiles\<close>, the \<open>totalChunks\<close> of
  its record is the ceiling of \<open>S / 262144\<close>, with the fixed chunk size of 262144
  bytes; a file of 300000 bytes has 2 chunks. The file is the \<open>k\<close>-th of the batch, so
  its id is \<open>idCounter + k + 1\<close>; its size is a JavaScript integer, below \<open>2^53\<close>, where
  the division by the power of two is exact.
\<close>

theorem totalChunks_is_ceiling:
  assumes "k < length files" and "length (bytes (files ! k)) < 2 ^ 53"
  shows "chunkSize = 262144 \<and>
    look totalChunks (handleFiles files type s) (idCounter s + k + 1)
      = Some (Some (nat \<lceil>(of_nat (length (bytes (files ! k))) :: rat) / 262144\<rceil>))"
proof -
  have c: "(262144::rat) = of_nat chunkSize" by (simp add: chunkSize_def)
  have "totalChunksOf (length (bytes (files ! k)))
      = nat \<lceil>(of_nat (length (bytes (files ! k))) :: rat) / 262144\<rceil>"
    unfolding totalChunksOf_def Math_ceil_def c fl_div_chunkSize [OF assms(2)] ..
  with handleFiles_totalChunks [OF assms(1), of type s] show ?thesis
    by (simp add: chunkSize_def)
qed

theorem totalChunks_is_ceiling_witness:
  "look totalChunks
     (handleFiles [\<lparr>name = ''a.png'', bytes = replicate 300000 0\<rparr>] Image (init True None)) 1
     = Some (Some 2)"
proof -
  have "\<lceil>(9375::rat) / 8192\<rceil> = 2" by (rule ceiling_unique) simp_all
  then have "nat \<lceil>(9375::rat) / 8192\<rceil> = 2" by simp
  with totalChunks_is_ceiling
    [of 0 "[\<lparr>name = ''a.png'', bytes = replicate 300000 0\<rparr>]" Image "init True None"]
  show ?thesis by (simp add: init_def)
qed



text \<open>
  C3. The progress after a commit should be \<open>round(100 * (i + 1) / totalChunks)\<close>. Taken
  at a file of 40 chunks (10485760 bytes) when the put of its chunk 22 commits: the
  source computes \<open>Math.round((23 / 40) * 100)\<close> in doubles, dividing first; \<open>23 / 40\<close>
  rounds to a double just below 0.575 and the product to 57.49999999999999, so the
  progress of the record is 57, where \<open>round(100 * 23 / 40)\<close> is the rounding of 57.5,
  which is 58.
\<close>

theorem progress_is_not_the_exact_rounding:
  "tasks (run clipRun (init True None)) 1
     = Some \<lparr>tfile = clip, tTotalChunks = 40, currentChunk = 23, phase = Scheduled\<rparr>
   \<and> look progress (run clipRun (init True None)) 1 = Some 57
   \<and> exactPercent 22 40 = 58"
  using clipRun_task look_reachable(1) [OF clipRun_task]
  by (simp add: progressOf_def percentOf_23_40 exactPercent_22_40)

text \<open>
  C6, as stated, taken at a file of two chunks whose first read fails: the \<open>catch\<close>
  block sets \<open>loading = false\<close> and leaves the progress at 0.
\<close>

theorem loading_false_without_100:
  "look loading (run [HandleFiles [photo] Image, ReadSettled 1 False] (init True None)) 1
     = Some False
   \<and> look progress (run [HandleFiles [photo] Image, ReadSettled 1 False] (init True None)) 1
     = Some 0"
  by (simp add: photo_def run_defs look_def totalChunksOf_300000)

text \<open>
  C6, amended. In every run the progress of a record never decreases, from any moment
  of its life to any later one. When a step turns \<open>loading\<close> from true to false, either
  the pipeline has returned normally and the progress is 100, or it has returned
  through \<open>catch\<close> and the progress is what it was before the step.
\<close>

theorem progress_never_decreases:
  assumes "look progress (run as (init supported existing)) i = Some x"
    and "look progress (run (as @ bs) (init supported existing)) i = Some y"
  shows "x \<le> y \<and>
    (\<forall>a z. look loading (run as (init supported existing)) i = Some True \<and>
           look loading (step a (run as (init supported existing))) i = Some False \<and>
           look progress (step a (run as (init supported existing))) i = Some z \<longrightarrow>
           (\<exists>t. tasks (step a (run as (init supported existing))) i = Some t \<and>
                (phase t = Finished \<and> z = 100 \<or> phase t = Failed \<and> z = x)))"
proof -
  define s where "s = run as (init supported existing)"
  have inv: "runInv s" unfolding s_def by (intro inv_run inv_init)
  from assms(1) obtain p where p: "heap s i = Some p" and px: "progress p = x"
    by (auto simp: look_def s_def split: option.splits)
  from inv p obtain t where t: "tasks s i = Some t" and pt: "progress p = progressOf t"
    and lt: "loading p = (phase t \<noteq> Finished \<and> phase t \<noteq> Failed)"
    by (rule task_of_object)
  have mono: "x \<le> y"
  proof -
    from run_advanced [OF inv t, of bs]
    obtain t' where t': "tasks (run bs s) i = Some t'" and adv: "advanced t t'" by auto
    have inv': "runInv (run bs s)" using inv by (rule inv_run)
    from assms(2) obtain p' where p': "heap (run bs s) i = Some p'" and py: "progress p' = y"
      by (auto simp: look_def s_def run_append split: option.splits)
    from inv' p' obtain u where "tasks (run bs s) i = Some u" and "progress p' = progressOf u"
      and "currentChunk u \<le> tTotalChunks u"
      by (rule task_of_object)
    with t' have "progress p' = progressOf t'" and "currentChunk t' \<le> tTotalChunks t'" by simp_all
    with progressOf_advanced [OF adv] px pt py show ?thesis by simp
  qed
  have fin: "\<exists>t'. tasks (step a s) i = Some t' \<and>
      (phase t' = Finished \<and> z = 100 \<or> phase t' = Failed \<and> z = x)"
    if l0: "look loading s i = Some True" and l1: "look loading (step a s) i = Some False"
      and pz: "look progress (step a s) i = Some z" for a z
  proof -
    from step_advanced [OF inv t, of a]
    obtain t' where t': "tasks (step a s) i = Some t'" and adv: "advanced t t'"
      and fr: "phase t' = Failed \<longrightarrow> currentChunk t' = currentChunk t" by auto
    have inv': "runInv (step a s)" using inv by (rule inv_step)
    from pz obtain p' where p': "heap (step a s) i = Some p'" and z: "progress p' = z"
      by (auto simp: look_def split: option.splits)
    from inv' p' obtain u where "tasks (step a s) i = Some u" and "progress p' = progressOf u"
      and "loading p' = (phase u \<noteq> Finished \<and> phase u \<noteq> Failed)"
      by (rule task_of_object)
    with t' have pu: "progress p' = progressOf t'"
      and lu: "loading p' = (phase t' \<noteq> Finished \<and> phase t' \<noteq> Failed)" by simp_all
    from l0 p lt have act: "phase t \<noteq> Finished" "phase t \<noteq> Failed" by (simp_all add: look_def)
    from l1 p' lu have ended: "phase t' = Finished \<or> phase t' = Failed" by (auto simp: look_def)
    show ?thesis
    proof (cases "phase t' = Finished")
      case True
      with pu z t' show ?thesis by (simp add: progressOf_def)
    next
      case False
      with ended have f: "phase t' = Failed" by simp
      with fr adv have "progressOf t' = progressOf t"
        using act by (simp add: progressOf_def advanced_def)
      with pu z px pt f t' show ?thesis by simp
    qed
  qed
  from mono fin show ?thesis unfolding s_def by blast
qed

theorem progress_never_decreases_witness:
  "look progress (run (take 4 photoRun) (init True None)) 1 = Some 50
   \<and> look progress (run (take 4 photoRun @ drop 4 photoRun) (init True None)) 1 = Some 100
   \<and> (50::int) \<le> 100
   \<and> look loading (run (take 4 photoRun) (init True None)) 1 = Some True
   \<and> look loading (step (ReadSettled 1 False) (run (take 4 photoRun) (init True None))) 1
       = Some False
   \<and> look progress (step (ReadSettled 1 False) (run (take 4 photoRun) (init True None))) 1
       = Some 50
   \<and> map_option phase (tasks (step (ReadSettled 1 False) (run (take 4 photoRun) (init True None))) 1)
       = Some Failed"
proof -
  have x: "look progress (run (take 4 photoRun) (init True None)) 1 = Some 50"
    by (simp add: photoRun4_state look_def)
  have y: "look progress (run (take 4 photoRun @ drop 4 photoRun) (init True None)) 1 = Some 100"
    by (simp add: photoRun_state look_def)
  have l0: "look loading (run (take 4 photoRun) (init True None)) 1 = Some True"
    by (simp add: photoRun4_state look_def)
  have l1: "look loading (step (ReadSettled 1 False) (run (take 4 photoRun) (init True None))) 1
      = Some False"
    by (simp add: photoRun4_state look_def readSettled_def catchError_def setTask_def updObj_def)
  have z: "look progress (step (ReadSettled 1 False) (run (take 4 photoRun) (init True None))) 1
      = Some 50"
    by (simp add: photoRun4_state look_def readSettled_def catchError_def setTask_def updObj_def)
  from progress_never_decreases [OF x y] l0 l1 z
  have "(50::int) \<le> 100" and
    "\<exists>t. tasks (step (ReadSettled 1 False) (run (take 4 photoRun) (init True None))) 1 = Some t \<and>
       (phase t = Finished \<and> (50::int) = 100 \<or> phase t = Failed \<and> (50::int) = 50)"
    by blast+
  with x y l0 l1 z show ?thesis by auto
qed

text \<open>
  C7. A failed put should end the pipeline of its file with \<open>loading = false\<close>. Taken
  at a file of two chunks (300000 bytes) whose first read succeeds and whose put
  fails by an abort of its transaction without an error event (the commit fails, or
  the quota is exceeded): \<open>saveChunk\<close> settles its promise in \<open>tx.oncomplete\<close> and in
  \<open>tx.onerror\<close> only, so the promise stays pending, the \<open>catch\<close> block never runs, and
  whatever happens afterwards (\<open>bs\<close>) the record keeps \<open>loading = true\<close> with its
  progress at 0; the put of chunk 0 is the only one ever started.
\<close>

theorem aborted_put_leaves_loading:
  "look loading
     (run (stalledRun @ bs) (init True None)) 1
     = Some True
   \<and> look progress
     (run (stalledRun @ bs) (init True None)) 1
     = Some 0
   \<and> putEvents 1 (trace
     (run (stalledRun @ bs) (init True None)))
     = [SaveChunkCalled (chunkOf photo 1 2 0)]
   \<and> map_option phase (tasks
     (run (stalledRun @ bs) (init True None)) 1)
     = Some Stalled"
proof -
  let ?s = "run stalledRun (init True None)"
  let ?t = "\<lparr>tfile = photo, tTotalChunks = 2, currentChunk = 0, phase = Stalled\<rparr>"
  have inv: "runInv ?s" by (intro inv_run inv_init)
  have t: "tasks ?s 1 = Some ?t" by (simp add: stalledRun_state)
  have "unchangedFor 1 ?s (run bs ?s)" using inv t by (rule run_unchanged_returned) simp
  then have "tasks (run bs ?s) 1 = tasks ?s 1" and "heap (run bs ?s) 1 = heap ?s 1"
    and "putEvents 1 (trace (run bs ?s)) = putEvents 1 (trace ?s)"
    by (simp_all add: unchangedFor_def)
  moreover have "run (stalledRun @ bs) (init True None) = run bs ?s"
    by (simp only: run_append)
  ultimately show ?thesis
    by (simp add: look_def stalledRun_state putEvents_def chunkOf_def slice_def photo_def
        chunkSize_def)
qed

text \<open>
  C10. In every run, a file of zero bytes accepted by \<open>handleFiles\<close> (the \<open>k\<close>-th of its
  batch) is complete when \<open>handleFiles\<close> returns: its \<open>totalChunks\<close> is 0, its record has
  \<open>loading = false\<close> and \<open>progress = 100\<close>, its pipeline has returned, and in whatever
  follows \<open>saveChunk\<close> is never called for its id.
\<close>

theorem empty_file_completes_at_once:
  assumes "k < length files" and "bytes (files ! k) = []"
  shows "look totalChunks (step (HandleFiles files type) (run as (init supported existing)))
           (idCounter (run as (init supported existing)) + k + 1) = Some (Some 0)
    \<and> look loading (step (HandleFiles files type) (run as (init supported existing)))
           (idCounter (run as (init supported existing)) + k + 1) = Some False
    \<and> look progress (step (HandleFiles files type) (run as (init supported existing)))
           (idCounter (run as (init supported existing)) + k + 1) = Some 100
    \<and> map_option phase (tasks (step (HandleFiles files type) (run as (init supported existing)))
           (idCounter (run as (init supported existing)) + k + 1)) = Some Finished
    \<and> (\<forall>bs. putEvents (idCounter (run as (init supported existing)) + k + 1)
           (trace (run bs (step (HandleFiles files type) (run as (init supported existing))))) = [])"
proof -
  define s where "s = run as (init supported existing)"
  define s' where "s' = step (HandleFiles files type) s"
  define i where "i = idCounter s + k + 1"
  have inv: "runInv s'" unfolding s'_def s_def by (intro inv_step inv_run inv_init)
  from handleFiles_task_nth [OF assms(1), of type s]
  obtain t where t: "tasks s' i = Some t" and f: "tfile t = files ! k"
    by (auto simp: s'_def i_def)
  from f assms(2) have e: "bytes (tfile t) = []" by simp
  note r = empty_task [OF inv t e]
  have later: "putEvents i (trace (run bs s')) = []" for bs
  proof -
    from run_advanced [OF inv t, of bs] r(1)
    have "tasks (run bs s') i = Some t" by (auto simp: advanced_def)
    moreover have "runInv (run bs s')" using inv by (rule inv_run)
    ultimately show ?thesis using e by (intro empty_task(3))
  qed
  from r t later show ?thesis unfolding s'_def s_def i_def by simp
qed

theorem empty_file_completes_at_once_witness:
  "look totalChunks (step (HandleFiles [\<lparr>name = ''empty.txt'', bytes = []\<rparr>] Image)
       (run [] (init True None))) 1 = Some (Some 0)
   \<and> look loading (step (HandleFiles [\<lparr>name = ''empty.txt'', bytes = []\<rparr>] Image)
       (run [] (init True None))) 1 = Some False
   \<and> look progress (step (HandleFiles [\<lparr>name = ''empty.txt'', bytes = []\<rparr>] Image)
       (run [] (init True None))) 1 = Some 100
   \<and> putEvents 1 (trace (run [TimerFired 1, ReadSettled 1 True, SaveSettled 1 True]
       (step (HandleFiles [\<lparr>name = ''empty.txt'', bytes = []\<rparr>] Image)
          (run [] (init True None))))) = []"
proof -
  let ?fs = "[\<lparr>name = ''empty.txt'', bytes = []\<rparr>]"
  have k: "0 < length ?fs" and e: "bytes (?fs ! 0) = []" by simp_all
  note f = empty_file_completes_at_once [OF k e, of Image "[]" True None]
  note r = f [THEN conjunct2, THEN conjunct2, THEN conjunct2, THEN conjunct2, THEN spec,
    of "[TimerFired 1, ReadSettled 1 True, SaveSettled 1 True]"]
  from f r show ?thesis by (simp add: init_def)
qed

text \<open>
  C4, evaluated where the database is the one \<open>openDB\<close> itself created and the file of
  id 1 has been ingested to the end: \<open>clearChunksByFileId(1)\<close> is rejected with
  \<open>NotFoundError\<close>, because \<open>store.index('fileId')\<close> throws on a store that was created
  without any index, and both chunks of file 1 are still stored.
\<close>

theorem clearChunksByFileId_rejects_on_own_database:
  "clearChunksByFileId True 1 (run photoRun (init True None))
     = (Inl NotFoundError, run photoRun (init True None))
   \<and> map chunkIndex (filter (\<lambda>r. fileId r = 1) (storedRows (run photoRun (init True None))))
     = [0, 1]"
  by (simp add: clearChunksByFileId_own_database) (simp add: photoRun_state storedRows_def)

text \<open>
  C5. \<open>removePreview\<close>, in any state: when \<open>clearChunksByFileId\<close> is rejected,
  \<open>removePreview\<close> is rejected with the same error and nothing has changed, so the
  record is still in its array. When it resolves and the record is in one of the
  arrays, what follows is, in this order, the clearing of the chunks, the revocation
  of the record's object URL and the removal of the record from its array; the rows
  of that file id are gone and no object is touched. (The steps of one call are taken
  together here: no other callback runs between its \<open>await\<close> and what follows it.)
\<close>

theorem removePreview_cleans_storage_first:
  "(\<forall>e. fst (clearChunksByFileId txOk i s) = Inl e \<longrightarrow> removePreview txOk i s = (Inl e, s))
   \<and> (fst (clearChunksByFileId txOk i s) = Inr () \<and> (i \<in> set (images s) \<or> i \<in> set (videos s))
        \<and> look objectUrl s i = Some (Some u) \<longrightarrow>
        fst (removePreview txOk i s) = Inr ()
      \<and> trace (snd (removePreview txOk i s))
          = trace s @ [ChunksCleared i, UrlRevoked u, RecordRemoved i]
      \<and> images (snd (removePreview txOk i s)) = filter (\<lambda>j. j \<noteq> i) (images s)
      \<and> videos (snd (removePreview txOk i s))
          = (if i \<in> set (images s) then videos s else filter (\<lambda>j. j \<noteq> i) (videos s))
      \<and> storedRows (snd (removePreview txOk i s)) = filter (\<lambda>r. fileId r \<noteq> i) (storedRows s)
      \<and> heap (snd (removePreview txOk i s)) = heap s)"
proof -
  have a: "removePreview txOk i s = (Inl e, s)" if "fst (clearChunksByFileId txOk i s) = Inl e" for e
    using clearChunksByFileId_rejected [OF that] by (simp add: removePreview_def)
  have b: "fst (removePreview txOk i s) = Inr ()
      \<and> trace (snd (removePreview txOk i s))
          = trace s @ [ChunksCleared i, UrlRevoked u, RecordRemoved i]
      \<and> images (snd (removePreview txOk i s)) = filter (\<lambda>j. j \<noteq> i) (images s)
      \<and> videos (snd (removePreview txOk i s))
          = (if i \<in> set (images s) then videos s else filter (\<lambda>j. j \<noteq> i) (videos s))
      \<and> storedRows (snd (removePreview txOk i s)) = filter (\<lambda>r. fileId r \<noteq> i) (storedRows s)
      \<and> heap (snd (removePreview txOk i s)) = heap s"
    if ok: "fst (clearChunksByFileId txOk i s) = Inr ()"
      and mem: "i \<in> set (images s) \<or> i \<in> set (videos s)"
      and url: "look objectUrl s i = Some (Some u)"
  proof -
    from clearChunksByFileId_resolved [OF ok] obtain store where st: "chunks s = Some store"
      and c: "clearChunksByFileId txOk i s
        = (Inr (), emit (ChunksCleared i)
            (s\<lparr>chunks := Some (store\<lparr>rows := filter (\<lambda>r. fileId r \<noteq> i) (rows store)\<rparr>)\<rparr>))"
      by auto
    from url obtain p where p: "heap s i = Some p" and pu: "objectUrl p = Some u"
      by (auto simp: look_def split: option.splits)
    have nin: "filter (\<lambda>j. j \<noteq> i) (images s) = images s" if "i \<notin> set (images s)"
      using that by (induction "images s") (auto simp: filter_id_conv)
    show ?thesis
      using mem p pu st nin
      by (auto simp: removePreview_def c revokeOf_def emit_def storedRows_def)
  qed
  from a b show ?thesis by blast
qed

theorem removePreview_cleans_storage_first_witness:
  "removePreview True 1 (run photoRun (init True None))
     = (Inl NotFoundError, run photoRun (init True None))
   \<and> images (run photoRun (init True None)) = [1]
   \<and> fst (removePreview True 1 (run photoRun (init True indexedDb))) = Inr ()
   \<and> trace (snd (removePreview True 1 (run photoRun (init True indexedDb))))
       = trace (run photoRun (init True indexedDb))
           @ [ChunksCleared 1, UrlRevoked 0, RecordRemoved 1]
   \<and> images (snd (removePreview True 1 (run photoRun (init True indexedDb)))) = []
   \<and> storedRows (snd (removePreview True 1 (run photoRun (init True indexedDb)))) = []"
proof -
  let ?s = "run photoRun (init True None)" and ?r = "run photoRun (init True indexedDb)"
  have f: "fst (clearChunksByFileId True 1 ?s) = Inl NotFoundError"
    by (simp add: clearChunksByFileId_own_database)
  have im: "images ?s = [1]" by (simp add: photoRun_state)
  have ok: "fst (clearChunksByFileId True 1 ?r) = Inr ()"
    by (simp add: photoRun_indexed_state clearChunksByFileId_def)
  have mem: "1 \<in> set (images ?r) \<or> 1 \<in> set (videos ?r)" by (simp add: photoRun_indexed_state)
  have url: "look objectUrl ?r 1 = Some (Some 0)" by (simp add: photoRun_indexed_state look_def)
  have fl: "filter (\<lambda>j. j \<noteq> 1) (images ?r) = []"
    and fr: "filter (\<lambda>r. fileId r \<noteq> 1) (storedRows ?r) = []"
    by (simp_all add: photoRun_indexed_state storedRows_def)
  note a = removePreview_cleans_storage_first [of True 1 ?s, THEN conjunct1, THEN spec, THEN mp, OF f]
  note b = removePreview_cleans_storage_first [of True 1 ?r 0, THEN conjunct2, THEN mp,
    OF conjI [OF ok conjI [OF mem url]]]
  from a b im fl fr show ?thesis by (simp only:)
qed

text \<open>
  C8. \<open>removeAll\<close> should do for every record of the partition the cleanup of a single
  removal, the deletion of its chunks and the revocation of its URL. Taken in a
  browser without the database, after a file of two chunks (300000 bytes, id 1) has
  been ingested: \<open>removeAll('image')\<close> empties the array and leaves one callback
  pending; its \<open>clearChunksByFileId(1)\<close> is rejected for the missing index, so the
  callback ends before the revocation, and whatever happens afterwards (\<open>bs\<close>) no
  chunk is deleted and no URL revoked: both rows of the file stay in the store and
  its object URL stays allocated.
\<close>

theorem removeAll_cleans_nothing_on_own_database:
  "images (run (photoRun @ [RemoveAll Image]) (init True None)) = []
   \<and> cleanups (run (photoRun @ [RemoveAll Image]) (init True None)) = [1]
   \<and> cleanupEvents (run (photoRun @ RemoveAll Image # bs) (init True None)) = []
   \<and> getRow (storedRows (run (photoRun @ RemoveAll Image # bs) (init True None))) 1 0
       = Some (chunkOf photo 1 2 0)
   \<and> getRow (storedRows (run (photoRun @ RemoveAll Image # bs) (init True None))) 1 1
       = Some (chunkOf photo 1 2 1)
   \<and> look objectUrl (run (photoRun @ RemoveAll Image # bs) (init True None)) 1 = Some (Some 0)"
proof -
  let ?s = "run photoRun (init True None)"
  let ?t = "\<lparr>tfile = photo, tTotalChunks = 2, currentChunk = 2, phase = Finished\<rparr>"
  let ?s' = "run (photoRun @ RemoveAll Image # bs) (init True None)"
  have r: "run (photoRun @ [RemoveAll Image]) (init True None) = removeAll Image ?s"
    by (simp add: run_append)
  have a: "images (run (photoRun @ [RemoveAll Image]) (init True None)) = []"
    and b: "cleanups (run (photoRun @ [RemoveAll Image]) (init True None)) = [1]"
    unfolding r by (simp_all add: removeAll_fields itemsOf_def photoRun_state)
  have c: "cleanupEvents ?s' = []" by (rule cleanupEvents_own_database)
  have inv: "runInv ?s" by (intro inv_run inv_init)
  have t: "tasks ?s 1 = Some ?t" by (simp add: photoRun_state)
  have s': "?s' = run (RemoveAll Image # bs) ?s" by (simp only: run_append)
  have "unchangedFor 1 ?s ?s'" unfolding s' using inv t by (rule run_unchanged_returned) simp
  then have "tasks ?s' 1 = tasks ?s 1" and h: "heap ?s' 1 = heap ?s 1"
    by (simp_all add: unchangedFor_def)
  with t have t': "tasks ?s' 1 = Some ?t" by simp
  have "runInv ?s'" by (intro inv_run inv_init)
  then have "taskOk ?s' 1" by (simp add: runInv_def)
  with t' have "dbOk 1 ?t ?s'" by (simp add: taskOk_def)
  moreover from c have "ChunksCleared 1 \<notin> set (trace ?s')"
    by (auto simp: cleanupEvents_def filter_empty_conv)
  ultimately have rows: "\<forall>k<2. getRow (storedRows ?s') 1 k = Some (chunkOf photo 1 2 k)"
    by (simp add: dbOk_def)
  from h have u: "look objectUrl ?s' 1 = Some (Some 0)"
    by (simp add: look_def photoRun_state)
  from a b c rows u show ?thesis by simp
qed



end
